theory Spec2Isabelle
  imports Complex_Main
begin

section \<open>Numbers\<close>

text \<open>
  A JavaScript number is modelled as a real number with exact arithmetic, or \<open>NaN\<close>.
  \<open>NaN\<close> is what arithmetic gives on \<open>undefined\<close>, the value of an array read outside
  the array; every operation with a \<open>NaN\<close> operand is \<open>NaN\<close>. The rounding of binary64
  arithmetic, overflow to infinity and the sign of zero are not modelled. The rounding
  of the elements of a \<open>Float32Array\<close> to binary32 is modelled, below.
\<close>

datatype number = Num real | NaN

instantiation number :: "{plus, minus, uminus, times}"
begin

fun plus_number :: "number \<Rightarrow> number \<Rightarrow> number" where
  "plus_number (Num a) (Num b) = Num (a + b)"
| "plus_number _ _ = NaN"

fun minus_number :: "number \<Rightarrow> number \<Rightarrow> number" where
  "minus_number (Num a) (Num b) = Num (a - b)"
| "minus_number _ _ = NaN"

fun uminus_number :: "number \<Rightarrow> number" where
  "uminus_number (Num a) = Num (- a)"
| "uminus_number NaN = NaN"

fun times_number :: "number \<Rightarrow> number \<Rightarrow> number" where
  "times_number (Num a) (Num b) = Num (a * b)"
| "times_number _ _ = NaN"

instance ..

end

text \<open>\<open>Math.sqrt\<close>, \<open>Math.cos\<close>, \<open>Math.sin\<close>, \<open>Math.atan2\<close> and \<open>Math.PI\<close>.\<close>

fun Math_sqrt :: "number \<Rightarrow> number" where
  "Math_sqrt (Num a) = (if a < 0 then NaN else Num (sqrt a))"
| "Math_sqrt NaN = NaN"

fun Math_cos :: "number \<Rightarrow> number" where
  "Math_cos (Num a) = Num (cos a)"
| "Math_cos NaN = NaN"

fun Math_sin :: "number \<Rightarrow> number" where
  "Math_sin (Num a) = Num (sin a)"
| "Math_sin NaN = NaN"

definition atan2 :: "real \<Rightarrow> real \<Rightarrow> real" where
  "atan2 b a =
     (if 0 < a then arctan (b / a)
      else if a < 0 then (if 0 \<le> b then arctan (b / a) + pi else arctan (b / a) - pi)
      else if 0 < b then pi / 2
      else if b < 0 then - (pi / 2)
      else 0)"

fun Math_atan2 :: "number \<Rightarrow> number \<Rightarrow> number" where
  "Math_atan2 (Num b) (Num a) = Num (atan2 b a)"
| "Math_atan2 _ _ = NaN"

definition Math_PI :: number where
  "Math_PI = Num pi"

text \<open>
  An array read \<open>xs[i]\<close>, the index being a number: the element when the index is a
  whole number inside the array, and \<open>undefined\<close> otherwise. The program uses every
  value it reads in arithmetic before storing it (the two coordinates it stores as read,
  the centre of a cap, are always read inside the array), so \<open>undefined\<close> is
  represented by \<open>NaN\<close>.
\<close>

definition rd :: "number list \<Rightarrow> real \<Rightarrow> number" where
  "rd xs i = (if i \<in> \<int> \<and> 0 \<le> i \<and> i < real (length xs) then xs ! nat \<lfloor>i\<rfloor> else NaN)"

section \<open>Typed arrays\<close>

text \<open>
  An element of a \<open>Float32Array\<close> is a binary32 value: a number stored into the array
  is rounded to the nearest binary32 value, a tie going to the even significand.
  \<open>binary32\<close> is that rounding on the reals: in the binade of \<open>x\<close>, with exponent
  \<open>\<lfloor>log\<^sub>2 \<bar>x\<bar>\<rfloor>\<close> and not below the smallest normal exponent -126, the binary32 values
  are the whole multiples of \<open>2\<^sup>e\<^sup>-\<^sup>2\<^sup>3\<close>. A magnitude that binary32 rounds to an infinity,
  \<open>2\<^sup>1\<^sup>2\<^sup>8 - 2\<^sup>1\<^sup>0\<^sup>3\<close> or more, is not represented: \<open>binary32\<close> gives a real number there too,
  and the theorems about rounded values bound the magnitudes well below it.

  A \<open>Float32Array\<close> is modelled by the list of the numbers stored into it, and \<open>rd32\<close>,
  the read of an element, gives the stored number rounded; a read outside the array
  is \<open>undefined\<close>, as for any array.
\<close>

definition round_half_even :: "real \<Rightarrow> int" where
  "round_half_even q =
     (let f = \<lfloor>q\<rfloor>; r = q - of_int f
      in if r < 1 / 2 then f
         else if 1 / 2 < r then f + 1
         else if even f then f else f + 1)"

definition binary32_exponent :: "real \<Rightarrow> int" where
  "binary32_exponent x = max \<lfloor>log 2 \<bar>x\<bar>\<rfloor> (- 126)"

definition binary32 :: "real \<Rightarrow> real" where
  "binary32 x =
     (if x = 0 then 0
      else let u = 2 powr of_int (binary32_exponent x - 23)
           in of_int (round_half_even (x / u)) * u)"

fun to_float32 :: "number \<Rightarrow> number" where
  "to_float32 (Num a) = Num (binary32 a)"
| "to_float32 NaN = NaN"

definition rd32 :: "number list \<Rightarrow> real \<Rightarrow> number" where
  "rd32 xs i = to_float32 (rd xs i)"

section \<open>Vectors\<close>

text \<open>
  Modelled from the spec: the vector classes \<open>THREE.Vector2\<close> and \<open>THREE.Vector3\<close> of
  the three.js library are used by the source and are not part of it. The spec names
  them as a capability (add, subtract, normalize, cross, dot, scale, and the angle of a
  2D vector relative to the positive X axis); the definitions below are the usual
  ones of that library: \<open>normalize\<close> divides by the length, or by 1 when the length is
  zero or \<open>NaN\<close>, and \<open>angle\<close> is \<open>atan2 y x\<close>, plus \<open>2\<pi>\<close> when that is negative.
\<close>

datatype Vector3 = Vector3 (vx: number) (vy: number) (vz: number)

datatype Vector2 = Vector2 number number

definition v3_sub :: "Vector3 \<Rightarrow> Vector3 \<Rightarrow> Vector3" where
  "v3_sub a b = Vector3 (vx a - vx b) (vy a - vy b) (vz a - vz b)"

definition v3_add :: "Vector3 \<Rightarrow> Vector3 \<Rightarrow> Vector3" where
  "v3_add a b = Vector3 (vx a + vx b) (vy a + vy b) (vz a + vz b)"

definition v3_multiplyScalar :: "Vector3 \<Rightarrow> number \<Rightarrow> Vector3" where
  "v3_multiplyScalar a s = Vector3 (vx a * s) (vy a * s) (vz a * s)"

definition v3_dot :: "Vector3 \<Rightarrow> Vector3 \<Rightarrow> number" where
  "v3_dot a b = vx a * vx b + vy a * vy b + vz a * vz b"

definition v3_cross :: "Vector3 \<Rightarrow> Vector3 \<Rightarrow> Vector3" where
  "v3_cross a b =
     Vector3 (vy a * vz b - vz a * vy b)
             (vz a * vx b - vx a * vz b)
             (vx a * vy b - vy a * vx b)"

definition v3_length :: "Vector3 \<Rightarrow> number" where
  "v3_length a = Math_sqrt (vx a * vx a + vy a * vy a + vz a * vz a)"

definition v3_normalize :: "Vector3 \<Rightarrow> Vector3" where
  "v3_normalize a =
     (case v3_length a of
        Num l \<Rightarrow> v3_multiplyScalar a (Num (1 / (if l = 0 then 1 else l)))
      | NaN \<Rightarrow> v3_multiplyScalar a (Num (1 / 1)))"

fun v2_angle :: "Vector2 \<Rightarrow> number" where
  "v2_angle (Vector2 a b) =
     (case Math_atan2 b a of
        Num t \<Rightarrow> (if t < 0 then Num t + Num 2 * Math_PI else Num t)
      | NaN \<Rightarrow> NaN)"

section \<open>Constants of the module\<close>

definition UNIT_Z :: Vector3 where
  "UNIT_Z = Vector3 (Num 0) (Num 0) (Num 1)"

definition POINTS :: "number list" where
  "POINTS = [Num 0, Num 1, Num 2, Num 1, Num 3, Num 2]"

definition SECTORS_IN_CIRCLE :: nat where
  "SECTORS_IN_CIRCLE = 8"

definition STEP :: number where
  "STEP = Num (pi / real SECTORS_IN_CIRCLE)"

section \<open>addCircle\<close>

text \<open>
  The two buffers are passed in and returned extended. The loop of \<open>addCircle\<close> runs its
  counter from the given value up to \<open>SECTORS_IN_CIRCLE\<close>; \<open>addCircle\<close> starts it at 0.
\<close>

function addCircle_loop ::
  "number \<Rightarrow> number \<Rightarrow> number \<Rightarrow> number \<Rightarrow> number \<Rightarrow> nat \<Rightarrow>
   number list \<times> number list \<Rightarrow> number list \<times> number list" where
  "addCircle_loop x y lineAngle radius baseVertex i (vertices, indices) =
     (if i < SECTORS_IN_CIRCLE + 1 then
        let angle = STEP * Num (real i) + Num (pi / 2) + lineAngle
        in addCircle_loop x y lineAngle radius baseVertex (i + 1)
             (vertices @ [x + radius * Math_cos angle, y + radius * Math_sin angle, Num 0],
              indices @ [baseVertex,
                         baseVertex + Num (real i) + Num 1,
                         baseVertex + Num (real ((i + 1) mod (SECTORS_IN_CIRCLE + 1))) + Num 1])
      else (vertices, indices))"
  by pat_completeness auto
termination
  by (relation "measure (\<lambda>(x, y, lineAngle, radius, baseVertex, i, bufs).
                   SECTORS_IN_CIRCLE + 1 - i)") auto

definition addCircle ::
  "number \<Rightarrow> number \<Rightarrow> number \<Rightarrow> number \<Rightarrow> number list \<times> number list \<Rightarrow>
   number list \<times> number list" where
  "addCircle x y lineAngle radius bufs =
     (let baseVertex = Num (real (length (fst bufs)) / 3)
      in addCircle_loop x y lineAngle radius baseVertex 0
           (fst bufs @ [x, y, Num 0], snd bufs))"

definition numCirclePoints :: "number \<Rightarrow> nat" where
  "numCirclePoints lineWidth = SECTORS_IN_CIRCLE + 1"

section \<open>triangulateLine\<close>

text \<open>The two vertices of one polyline point: \<open>a\<close> scaled by \<open>-width\<close> and by \<open>width\<close>, each
  added to \<open>p\<close>, and the six coordinates pushed.\<close>

definition offset_pair :: "Vector3 \<Rightarrow> number \<Rightarrow> Vector3 \<Rightarrow> number list" where
  "offset_pair a width p =
     (let p0 = v3_add (v3_multiplyScalar a (- width)) p;
          p1 = v3_add (v3_multiplyScalar a width) p
      in [vx p0, vy p0, vz p0, vx p1, vy p1, vz p1])"

text \<open>The first loop of \<open>triangulateLine\<close>; \<open>N\<close> is \<open>points.length / 2\<close>, which is not a whole
  number when the array has an odd length.\<close>

function vertex_loop ::
  "number list \<Rightarrow> number \<Rightarrow> real \<Rightarrow> nat \<Rightarrow> Vector3 \<Rightarrow> number list \<Rightarrow> number list" where
  "vertex_loop points width N i prevDir vertices =
     (if real i < N then
        let p = Vector3 (rd points (real (i * 2))) (rd points (real (i * 2 + 1))) (Num 0)
        in if real (i + 1) < N then
             let n = Vector3 (rd points (real ((i + 1) * 2)))
                             (rd points (real ((i + 1) * 2 + 1))) (Num 0);
                 dir = v3_cross (v3_normalize (v3_sub n p)) UNIT_Z;
                 aver = (if 0 < i
                         then v3_multiplyScalar (v3_add dir prevDir)
                                (Num 1 - Num 0.5 * v3_dot dir prevDir)
                         else dir)
             in vertex_loop points width N (i + 1) dir (vertices @ offset_pair aver width p)
           else vertex_loop points width N (i + 1) prevDir
                  (vertices @ offset_pair prevDir width p)
      else vertices)"
  by pat_completeness auto
termination
  by (relation "measure (\<lambda>(points, width, N, i, prevDir, vertices). nat \<lceil>N\<rceil> - i)")
     (auto intro!: diff_less_mono2, linarith+)

text \<open>The second loop: the six indices of each segment.\<close>

function index_loop :: "number \<Rightarrow> real \<Rightarrow> nat \<Rightarrow> number list \<Rightarrow> number list" where
  "index_loop baseVertex N i indices =
     (if real i < N - 1 then
        index_loop baseVertex N (i + 1)
          (indices @ map (\<lambda>o'. baseVertex + Num (real (i * 2)) + o') POINTS)
      else indices)"
  by pat_completeness auto
termination
  by (relation "measure (\<lambda>(baseVertex, N, i, indices). nat \<lceil>N - 1\<rceil> - i)")
     (auto intro!: diff_less_mono2, linarith+)

text \<open>The incline angles of the two caps, as \<open>triangulateLine\<close> computes them.\<close>

definition startAngle :: "number list \<Rightarrow> number" where
  "startAngle points =
     (if length points \<noteq> 2
      then v2_angle (Vector2 (rd points 2 - rd points 0) (rd points 3 - rd points 1))
      else Num 0)"

definition endAngle :: "number list \<Rightarrow> number" where
  "endAngle points =
     (let N = real (length points) / 2 in
      if length points \<noteq> 2
      then v2_angle (Vector2 (rd points ((N - 2) * 2) - rd points ((N - 1) * 2))
                             (rd points ((N - 2) * 2 + 1) - rd points ((N - 1) * 2 + 1)))
      else Math_PI)"

definition triangulateLine ::
  "number list \<Rightarrow> number \<Rightarrow> number list \<times> number list \<Rightarrow> bool \<Rightarrow> bool \<Rightarrow>
   number list \<times> number list" where
  "triangulateLine points width bufs startWithCircle endWithCircle =
     (if length points < 2 then bufs
      else
        let bufs1 = (if startWithCircle
                     then addCircle (rd points 0) (rd points 1) (startAngle points) width bufs
                     else bufs);
            baseVertex = Num (real (length (fst bufs1)) / 3);
            N = real (length points) / 2;
            vertices2 = vertex_loop points width N 0 (Vector3 (Num 0) (Num 0) (Num 0)) (fst bufs1);
            indices2 = index_loop baseVertex N 0 (snd bufs1)
        in if endWithCircle
           then addCircle (rd points ((N - 1) * 2)) (rd points ((N - 1) * 2 + 1))
                  (endAngle points) width (vertices2, indices2)
           else (vertices2, indices2))"

section \<open>reconstructLine and reconstructLineWidth\<close>

text \<open>
  Both functions take a \<open>Float32Array\<close>, so they read with \<open>rd32\<close>; the arithmetic
  on the values read is that of numbers. The output buffer of \<open>reconstructLine\<close> is a
  \<open>Float32Array\<close> too: it is created filled with zeros, its length is the given number
  with the fraction dropped, a value written to it is rounded to binary32, and a write
  outside it is ignored, which is what list update does. \<open>startOffset\<close> and \<open>startIndex\<close>
  are counts, natural numbers.
\<close>

function reconstruct_loop :: "number list \<Rightarrow> nat \<Rightarrow> nat \<Rightarrow> number list \<Rightarrow> number list" where
  "reconstruct_loop inBuffer i i2 outBuffer =
     (if i < length outBuffer then
        reconstruct_loop inBuffer (i + 3) (i2 + 6)
          (outBuffer
             [i := to_float32
                (rd32 inBuffer (real i2)
                   + (rd32 inBuffer (real (i2 + 3)) - rd32 inBuffer (real i2)) * Num 0.5),
              i + 1 := to_float32
                (rd32 inBuffer (real (i2 + 1))
                   + (rd32 inBuffer (real (i2 + 3 + 1)) - rd32 inBuffer (real (i2 + 1)))
                       * Num 0.5),
              i + 2 := to_float32
                (rd32 inBuffer (real (i2 + 2))
                   + (rd32 inBuffer (real (i2 + 3 + 2)) - rd32 inBuffer (real (i2 + 2)))
                       * Num 0.5)])
      else outBuffer)"
  by pat_completeness auto
termination
  by (relation "measure (\<lambda>(inBuffer, i, i2, outBuffer). length outBuffer - i)") auto

definition reconstructLine :: "number list \<Rightarrow> nat \<Rightarrow> number list" where
  "reconstructLine inBuffer startOffset =
     reconstruct_loop inBuffer (startOffset * 3) (startOffset * 3 * 2)
       (replicate (length inBuffer div 2) (Num 0))"

definition reconstructLineWidth :: "number list \<Rightarrow> nat \<Rightarrow> number" where
  "reconstructLineWidth inBuffer startIndex =
     (let xd = rd32 inBuffer (real (startIndex * 2 + 3)) - rd32 inBuffer (real (startIndex * 2));
          yd = rd32 inBuffer (real (startIndex * 2 + 3 + 1))
                 - rd32 inBuffer (real (startIndex * 2 + 1));
          zd = rd32 inBuffer (real (startIndex * 2 + 3 + 2))
                 - rd32 inBuffer (real (startIndex * 2 + 2))
      in Math_sqrt (xd * xd + yd * yd + zd * zd) * Num 0.5)"

section \<open>The offset directions, as the specification describes them\<close>

text \<open>
  These definitions follow the words of the specification, for a polyline of \<open>n\<close>
  points; they are compared with the loop of \<open>triangulateLine\<close> below. \<open>point\<close> is
  the \<open>i\<close>-th point of the flat array with z = 0. \<open>segment_dir\<close> is the direction of
  the segment that leaves point \<open>i\<close>, normalized and crossed with the unit Z vector.
  \<open>averaged_dir\<close> is the direction along which point \<open>i\<close> is offset: for a point with
  a successor, the segment direction itself at \<open>i = 0\<close> and otherwise the sum of the
  directions of the two segments that meet at the point, scaled by one minus half
  their dot product; for the last point, the direction of the segment before it (the
  zero vector when there is none).
\<close>

definition point :: "number list \<Rightarrow> nat \<Rightarrow> Vector3" where
  "point points i =
     Vector3 (rd points (real (i * 2))) (rd points (real (i * 2 + 1))) (Num 0)"

definition segment_dir :: "number list \<Rightarrow> nat \<Rightarrow> Vector3" where
  "segment_dir points i =
     v3_cross (v3_normalize (v3_sub (point points (i + 1)) (point points i))) UNIT_Z"

definition prev_dir :: "number list \<Rightarrow> nat \<Rightarrow> Vector3" where
  "prev_dir points i =
     (if 0 < i then segment_dir points (i - 1) else Vector3 (Num 0) (Num 0) (Num 0))"

definition averaged_dir :: "number list \<Rightarrow> nat \<Rightarrow> nat \<Rightarrow> Vector3" where
  "averaged_dir points n i =
     (if i + 1 < n then
        (if 0 < i
         then v3_multiplyScalar (v3_add (segment_dir points i) (segment_dir points (i - 1)))
                (Num 1 - Num 0.5 * v3_dot (segment_dir points i) (segment_dir points (i - 1)))
         else segment_dir points i)
      else prev_dir points i)"

text \<open>The counter-clockwise quarter turn about the Z axis, the perpendicular on the
  left of a direction in the XY plane.\<close>

definition left_perpendicular :: "Vector3 \<Rightarrow> Vector3" where
  "left_perpendicular d = Vector3 (- vy d) (vx d) (vz d)"

section \<open>Midpoints\<close>

text \<open>
  Component \<open>j\<close> of the midpoint of the two consecutive vertices \<open>2k\<close> and \<open>2k + 1\<close> of a
  vertex buffer that is a \<open>Float32Array\<close>, where \<open>k = j div 3\<close>: the first vertex plus
  half the difference, as stored in a \<open>Float32Array\<close>.
\<close>

definition midpoint_at :: "number list \<Rightarrow> nat \<Rightarrow> number" where
  "midpoint_at inBuffer j =
     to_float32
       (rd32 inBuffer (real (6 * (j div 3) + j mod 3))
          + (rd32 inBuffer (real (6 * (j div 3) + 3 + j mod 3))
               - rd32 inBuffer (real (6 * (j div 3) + j mod 3))) * Num 0.5)"

text \<open>The loops are unfolded by hand, one iteration at a time.\<close>

declare addCircle_loop.simps [simp del]
declare vertex_loop.simps [simp del]
declare index_loop.simps [simp del]
declare reconstruct_loop.simps [simp del]

section \<open>Reading arrays and lists of blocks\<close>

lemma rd_nat: "rd xs (real n) = (if n < length xs then xs ! n else NaN)"
  by (simp add: rd_def)

lemma rd_0: "rd xs 0 = (if 0 < length xs then xs ! 0 else NaN)"
  using rd_nat [of xs 0] by simp

lemma rd_1: "rd xs 1 = (if 1 < length xs then xs ! 1 else NaN)"
  using rd_nat [of xs 1] by simp

lemma rd_numeral:
  "rd xs (numeral k) = (if numeral k < length xs then xs ! numeral k else NaN)"
  using rd_nat [of xs "numeral k"] by simp

lemmas rd_simps = rd_nat rd_0 rd_1 rd_numeral

lemma rd_lt: "i < length xs \<Longrightarrow> rd xs (real i) = xs ! i"
  by (simp add: rd_nat)

lemma Num_0_add: "Num 0 + x = x"
  by (cases x) simp_all

lemma cross_UNIT_Z:
  "v3_cross (Vector3 (Num a) (Num b) (Num c)) UNIT_Z = Vector3 (Num b) (Num (- a)) (Num 0)"
  by (simp add: v3_cross_def UNIT_Z_def)

lemma offset_pair_Num:
  "offset_pair (Vector3 (Num a1) (Num a2) (Num a3)) (Num w) (Vector3 (Num p1) (Num p2) (Num p3)) =
     [Num (p1 - a1 * w), Num (p2 - a2 * w), Num (p3 - a3 * w),
      Num (p1 + a1 * w), Num (p2 + a2 * w), Num (p3 + a3 * w)]"
  by (simp add: offset_pair_def v3_add_def v3_multiplyScalar_def Let_def)

lemma length_offset_pair: "length (offset_pair a width p) = 6"
  by (simp add: offset_pair_def Let_def)

lemma v3_length_unit:
  "a1 * a1 + a2 * a2 = 1 \<Longrightarrow> v3_length (Vector3 (Num a1) (Num a2) (Num 0)) = Num 1"
  by (simp add: v3_length_def)

lemma sqrt_4: "sqrt 4 = 2"
  using real_sqrt_abs [of 2] by simp

lemma sqrt_8: "sqrt 8 = 2 * sqrt 2"
proof -
  have "sqrt 8 = sqrt (4 * 2)" by simp
  also have "\<dots> = 2 * sqrt 2" by (simp only: real_sqrt_mult sqrt_4)
  finally show ?thesis .
qed

lemma atan2_0_1: "atan2 0 1 = 0"
  by (simp add: atan2_def)

lemma length_concat_blocks:
  "(\<And>k. k < n \<Longrightarrow> length (f k) = m) \<Longrightarrow> length (concat (map f [0..<n])) = n * m"
  by (induction n) simp_all

lemma concat_blocks_nth:
  "(\<And>k. k < n \<Longrightarrow> length (f k) = m) \<Longrightarrow> k < n \<Longrightarrow> c < m \<Longrightarrow>
   concat (map f [0..<n]) ! (k * m + c) = f k ! c"
proof (induction n)
  case 0
  then show ?case by simp
next
  case (Suc n)
  have len: "length (concat (map f [0..<n])) = n * m"
    using Suc.prems(1) by (intro length_concat_blocks) simp
  show ?case
  proof (cases "k < n")
    case True
    have "k * m + c < Suc k * m"
      using Suc.prems(3) by simp
    also have "Suc k * m \<le> n * m"
      using True by (intro mult_le_mono1) simp
    finally have "k * m + c < n * m" .
    with True Suc show ?thesis by (simp add: nth_append len)
  next
    case False
    with Suc.prems have "k = n" by simp
    then show ?thesis by (simp add: nth_append len)
  qed
qed

section \<open>Rounding to binary32\<close>

lemma round_half_even_error: "\<bar>of_int (round_half_even q) - q\<bar> \<le> 1 / 2"
  unfolding round_half_even_def Let_def by (auto; linarith)

lemma round_half_even_of_int: "round_half_even (of_int j) = j"
  by (simp add: round_half_even_def)

lemma powr_floor_log_le: "x \<noteq> 0 \<Longrightarrow> 2 powr of_int \<lfloor>log 2 \<bar>x\<bar>\<rfloor> \<le> \<bar>x\<bar>"
proof -
  assume "x \<noteq> 0"
  then have pos: "0 < \<bar>x\<bar>" by simp
  have "of_int \<lfloor>log 2 \<bar>x\<bar>\<rfloor> \<le> log 2 \<bar>x\<bar>" by simp
  then have "2 powr of_int \<lfloor>log 2 \<bar>x\<bar>\<rfloor> \<le> 2 powr log 2 \<bar>x\<bar>"
    by (simp only: powr_le_cancel_iff) 
  also have "\<dots> = \<bar>x\<bar>" using pos by simp
  finally show ?thesis .
qed

lemma binary32_error: "\<bar>binary32 x - x\<bar> \<le> \<bar>x\<bar> / 2 ^ 24 + 1 / 2 ^ 150"
proof (cases "x = 0")
  case True
  then show ?thesis by (simp add: binary32_def)
next
  case False
  define e where "e = binary32_exponent x"
  define u where "u = (2::real) powr of_int (e - 23)"
  have u: "0 < u" by (simp add: u_def)
  have b: "binary32 x = of_int (round_half_even (x / u)) * u"
    using False by (simp add: binary32_def Let_def e_def u_def)
  have "binary32 x - x = (of_int (round_half_even (x / u)) - x / u) * u"
    using u by (simp add: b left_diff_distrib)
  then have "\<bar>binary32 x - x\<bar> = \<bar>of_int (round_half_even (x / u)) - x / u\<bar> * u"
    using u by (simp add: abs_mult)
  also have "\<dots> \<le> 1 / 2 * u"
    using u round_half_even_error [of "x / u"] by (intro mult_right_mono) simp_all
  finally have half: "\<bar>binary32 x - x\<bar> \<le> u / 2" by simp
  show ?thesis
  proof (cases "- 126 \<le> \<lfloor>log 2 \<bar>x\<bar>\<rfloor>")
    case True
    then have "e = \<lfloor>log 2 \<bar>x\<bar>\<rfloor>" by (simp add: e_def binary32_exponent_def)
    then have "u = 2 powr of_int \<lfloor>log 2 \<bar>x\<bar>\<rfloor> / 2 ^ 23"
      by (simp add: u_def powr_diff)
    then have "u \<le> \<bar>x\<bar> / 2 ^ 23"
      using powr_floor_log_le [OF False] by (simp add: divide_right_mono)
    with half show ?thesis by simp
  next
    case False
    then have "e = - 126" by (simp add: e_def binary32_exponent_def)
    then have "u = 1 / 2 ^ 149"
      by (simp add: u_def powr_minus_divide)
    then have "u / 2 = 1 / 2 ^ 150"
      by simp
    with half have "\<bar>binary32 x - x\<bar> \<le> 1 / 2 ^ 150"
      by (simp only:)
    moreover have "0 \<le> \<bar>x\<bar> / 2 ^ 24"
      by simp
    ultimately show ?thesis
      by (simp only: add_increasing)
  qed
qed

lemma binary32_in_binade:
  assumes "2 powr of_int e \<le> \<bar>x\<bar>" and "\<bar>x\<bar> < 2 powr of_int (e + 1)" and "- 126 \<le> e"
  shows "binary32 x =
     of_int (round_half_even (x / 2 powr of_int (e - 23))) * 2 powr of_int (e - 23)"
proof -
  have "0 < (2::real) powr of_int e" by simp
  with assms(1) have pos: "0 < \<bar>x\<bar>" by linarith
  then have "\<lfloor>log 2 \<bar>x\<bar>\<rfloor> = e"
    using assms(1,2) by (simp add: floor_log_eq_powr_iff)
  then have "binary32_exponent x = e"
    using assms(3) by (simp add: binary32_exponent_def)
  then show ?thesis
    using pos by (simp add: binary32_def Let_def)
qed

lemma binary32_representable:
  assumes m: "\<bar>m\<bar> < 2 ^ 24" and k: "- 149 \<le> k"
  shows "binary32 (of_int m * 2 powr of_int k) = of_int m * 2 powr of_int k"
proof (cases "m = 0")
  case True
  then show ?thesis by (simp add: binary32_def)
next
  case False
  define x where "x = real_of_int m * 2 powr of_int k"
  have x0: "x \<noteq> 0" using False by (simp add: x_def)
  have absx: "\<bar>x\<bar> = real_of_int \<bar>m\<bar> * 2 powr of_int k"
    by (simp add: x_def abs_mult)
  define e where "e = binary32_exponent x"
  have "real_of_int \<bar>m\<bar> < 2 ^ 24"
    using m by (metis of_int_less_iff of_int_numeral of_int_power)
  then have "\<bar>x\<bar> < 2 ^ 24 * 2 powr of_int k"
    unfolding absx by (intro mult_strict_right_mono) simp_all
  also have "\<dots> = 2 powr of_int (k + 24)"
    by (simp add: powr_add)
  finally have lt: "\<bar>x\<bar> < 2 powr of_int (k + 24)" .
  have "2 powr of_int \<lfloor>log 2 \<bar>x\<bar>\<rfloor> \<le> \<bar>x\<bar>"
    using x0 by (rule powr_floor_log_le)
  with lt have "(2::real) powr of_int \<lfloor>log 2 \<bar>x\<bar>\<rfloor> < 2 powr of_int (k + 24)"
    by linarith
  then have "\<lfloor>log 2 \<bar>x\<bar>\<rfloor> < k + 24"
    by simp
  then have le: "e - 23 \<le> k"
    using k by (simp add: e_def binary32_exponent_def)
  define d where "d = nat (k - (e - 23))"
  have kd: "of_int k = real_of_int (e - 23) + real d"
    using le by (simp add: d_def)
  have p: "(2::real) powr of_int k = 2 powr of_int (e - 23) * 2 ^ d"
    unfolding kd by (simp add: powr_add powr_realpow)
  have q: "x / 2 powr of_int (e - 23) = of_int (m * 2 ^ d)"
    by (simp add: x_def p)
  have "binary32 x = of_int (round_half_even (x / 2 powr of_int (e - 23))) * 2 powr of_int (e - 23)"
    using x0 by (simp add: binary32_def Let_def e_def)
  also have "\<dots> = of_int (m * 2 ^ d) * 2 powr of_int (e - 23)"
    unfolding q round_half_even_of_int ..
  also have "\<dots> = x"
    by (simp add: x_def p)
  finally show ?thesis
    by (simp add: x_def)
qed

lemma binary32_of_int: "\<bar>m\<bar> < 2 ^ 24 \<Longrightarrow> binary32 (of_int m) = of_int m"
  using binary32_representable [of m 0] by simp

lemma binary32_0: "binary32 0 = 0"
  by (simp add: binary32_def)


lemma binary32_1: "binary32 1 = 1"
  using binary32_of_int [of 1] by simp

lemma binary32_numeral:
  "(numeral n :: int) < 2 ^ 24 \<Longrightarrow> binary32 (numeral n) = numeral n"
  using binary32_of_int [of "numeral n"] by simp

lemma binary32_neg_numeral:
  "(numeral n :: int) < 2 ^ 24 \<Longrightarrow> binary32 (- numeral n) = - numeral n"
  using binary32_of_int [of "- numeral n"] by simp

lemma binary32_neg_1: "binary32 (- 1) = - 1"
  using binary32_of_int [of "- 1"] by simp

lemmas binary32_simps =
  binary32_0 binary32_1 binary32_neg_1 binary32_numeral binary32_neg_numeral

lemma abs_half_sum_le:
  "\<bar>a\<bar> \<le> D \<Longrightarrow> \<bar>b\<bar> \<le> D \<Longrightarrow> x = (a + b) / 2 \<Longrightarrow> \<bar>x\<bar> \<le> (D::real)"
  by (simp add: abs_le_iff)

lemma abs_half_diff_le:
  "\<bar>a\<bar> \<le> D \<Longrightarrow> \<bar>b\<bar> \<le> D \<Longrightarrow> x = (b - a) / 2 \<Longrightarrow> \<bar>x\<bar> \<le> (D::real)"
  by (simp add: abs_le_iff)

lemma rounded_midpoint_error:
  fixes f :: "real \<Rightarrow> real"
  assumes f: "\<And>x. \<bar>f x - x\<bar> \<le> \<epsilon> * \<bar>x\<bar> + \<eta>"
    and e: "0 \<le> \<epsilon>" "\<epsilon> \<le> 1" and h: "0 \<le> \<eta>"
  shows "\<bar>f (f (p - t) + (f (p + t) - f (p - t)) * (1 / 2)) - p\<bar>
           \<le> 4 * \<epsilon> * (\<bar>p\<bar> + \<bar>t\<bar>) + 4 * \<eta>"
proof -
  define A where "A = \<bar>p\<bar> + \<bar>t\<bar>"
  define D where "D = \<epsilon> * A + \<eta>"
  define mid where "mid = f (p - t) + (f (p + t) - f (p - t)) * (1 / 2)"
  have A: "0 \<le> A" "\<bar>p\<bar> \<le> A" by (simp_all add: A_def)
  have "\<bar>p - t\<bar> \<le> A" "\<bar>p + t\<bar> \<le> A" by (simp_all add: A_def)
  then have "\<epsilon> * \<bar>p - t\<bar> \<le> \<epsilon> * A" "\<epsilon> * \<bar>p + t\<bar> \<le> \<epsilon> * A"
    using e(1) by (simp_all add: mult_left_mono)
  then have e0: "\<bar>f (p - t) - (p - t)\<bar> \<le> D" and e1: "\<bar>f (p + t) - (p + t)\<bar> \<le> D"
    using f [of "p - t"] f [of "p + t"] by (simp_all add: D_def)
  have "mid - p = ((f (p - t) - (p - t)) + (f (p + t) - (p + t))) / 2"
    by (simp add: mid_def field_simps)
  with e0 e1 have m: "\<bar>mid - p\<bar> \<le> D"
    by (rule abs_half_sum_le)
  then have "\<bar>mid\<bar> \<le> A + D"
    using A(2) by linarith
  then have "\<epsilon> * \<bar>mid\<bar> \<le> \<epsilon> * (A + D)"
    using e(1) by (simp add: mult_left_mono)
  then have fm: "\<bar>f mid - mid\<bar> \<le> \<epsilon> * (A + D) + \<eta>"
    using f [of mid] by linarith
  have D0: "0 \<le> D"
    using e(1) h A(1) by (simp add: D_def)
  have "\<epsilon> * D \<le> 1 * D"
    using e(2) D0 by (intro mult_right_mono) simp_all
  then have "\<epsilon> * (A + D) \<le> \<epsilon> * A + D"
    by (simp add: distrib_left)
  with fm m have "\<bar>f mid - p\<bar> \<le> \<epsilon> * A + D + \<eta> + D"
    by linarith
  also have "\<dots> = 3 * \<epsilon> * A + 3 * \<eta>"
    by (simp add: D_def)
  also have "\<dots> \<le> 4 * \<epsilon> * A + 4 * \<eta>"
  proof -
    have "0 \<le> \<epsilon> * A" using e(1) A(1) by simp
    then show ?thesis using h by linarith
  qed
  finally show ?thesis
    by (simp add: mid_def A_def)
qed

lemma binary32_error': "\<bar>binary32 x - x\<bar> \<le> (1 / 2 ^ 24) * \<bar>x\<bar> + 1 / 2 ^ 150"
  using binary32_error [of x] by simp

lemma binary32_midpoint_error:
  "\<bar>binary32 (binary32 (p - t) + (binary32 (p + t) - binary32 (p - t)) * (1 / 2)) - p\<bar>
           \<le> (\<bar>p\<bar> + \<bar>t\<bar>) / 2 ^ 22 + 1 / 2 ^ 148"
proof -
  have "\<bar>binary32 (binary32 (p - t) + (binary32 (p + t) - binary32 (p - t)) * (1 / 2)) - p\<bar>
           \<le> 4 * (1 / 2 ^ 24) * (\<bar>p\<bar> + \<bar>t\<bar>) + 4 * (1 / 2 ^ 150)"
    by (rule rounded_midpoint_error [OF binary32_error']) simp_all
  also have "\<dots> = (\<bar>p\<bar> + \<bar>t\<bar>) / 2 ^ 22 + 1 / 2 ^ 148"
    by simp
  finally show ?thesis .
qed

lemma rounded_half_difference_error:
  fixes f :: "real \<Rightarrow> real"
  assumes f: "\<And>x. \<bar>f x - x\<bar> \<le> \<epsilon> * \<bar>x\<bar> + \<eta>" and e: "0 \<le> \<epsilon>"
  shows "\<bar>(f (p + t) - f (p - t)) / 2 - t\<bar> \<le> \<epsilon> * (\<bar>p\<bar> + \<bar>t\<bar>) + \<eta>"
proof -
  have "\<bar>p - t\<bar> \<le> \<bar>p\<bar> + \<bar>t\<bar>" "\<bar>p + t\<bar> \<le> \<bar>p\<bar> + \<bar>t\<bar>" by simp_all
  then have "\<epsilon> * \<bar>p - t\<bar> \<le> \<epsilon> * (\<bar>p\<bar> + \<bar>t\<bar>)" "\<epsilon> * \<bar>p + t\<bar> \<le> \<epsilon> * (\<bar>p\<bar> + \<bar>t\<bar>)"
    using e by (simp_all add: mult_left_mono)
  then have "\<bar>f (p - t) - (p - t)\<bar> \<le> \<epsilon> * (\<bar>p\<bar> + \<bar>t\<bar>) + \<eta>"
    and "\<bar>f (p + t) - (p + t)\<bar> \<le> \<epsilon> * (\<bar>p\<bar> + \<bar>t\<bar>) + \<eta>"
    using f [of "p - t"] f [of "p + t"] by linarith+
  moreover have "(f (p + t) - f (p - t)) / 2 - t
      = ((f (p + t) - (p + t)) - (f (p - t) - (p - t))) / 2"
    by (simp add: field_simps)
  ultimately show ?thesis
    by (rule abs_half_diff_le)
qed

lemma norm2_difference:
  "\<bar>sqrt (u1\<^sup>2 + u2\<^sup>2) - sqrt (t1\<^sup>2 + t2\<^sup>2)\<bar> \<le> \<bar>u1 - t1\<bar> + \<bar>u2 - t2\<bar>"
proof -
  have a: "sqrt (u1\<^sup>2 + u2\<^sup>2) \<le> sqrt (t1\<^sup>2 + t2\<^sup>2) + sqrt ((u1 - t1)\<^sup>2 + (u2 - t2)\<^sup>2)"
    using real_sqrt_sum_squares_triangle_ineq [of t1 "u1 - t1" t2 "u2 - t2"] by simp
  have b: "sqrt (t1\<^sup>2 + t2\<^sup>2) \<le> sqrt (u1\<^sup>2 + u2\<^sup>2) + sqrt ((t1 - u1)\<^sup>2 + (t2 - u2)\<^sup>2)"
    using real_sqrt_sum_squares_triangle_ineq [of u1 "t1 - u1" u2 "t2 - u2"] by simp
  have c: "sqrt ((u1 - t1)\<^sup>2 + (u2 - t2)\<^sup>2) \<le> \<bar>u1 - t1\<bar> + \<bar>u2 - t2\<bar>"
    by (rule sqrt_sum_squares_le_sum_abs)
  have d: "sqrt ((t1 - u1)\<^sup>2 + (t2 - u2)\<^sup>2) = sqrt ((u1 - t1)\<^sup>2 + (u2 - t2)\<^sup>2)"
    by (simp add: power2_commute)
  from a b c d show ?thesis
    by linarith
qed

lemma rd32_nat: "rd32 xs (real n) = (if n < length xs then to_float32 (xs ! n) else NaN)"
  by (simp add: rd32_def rd_nat)

section \<open>One iteration of each loop\<close>

lemma vertex_loop_stop:
  "\<not> real i < N \<Longrightarrow> vertex_loop points width N i prevDir vertices = vertices"
  by (subst vertex_loop.simps) simp

lemma vertex_loop_last:
  "real i < N \<Longrightarrow> \<not> real (i + 1) < N \<Longrightarrow>
   vertex_loop points width N i prevDir vertices =
     vertex_loop points width N (i + 1) prevDir
       (vertices @ offset_pair prevDir width
          (Vector3 (rd points (real (i * 2))) (rd points (real (i * 2 + 1))) (Num 0)))"
  by (subst vertex_loop.simps) (simp add: Let_def)

lemma vertex_loop_step:
  "real i < N \<Longrightarrow> real (i + 1) < N \<Longrightarrow>
   vertex_loop points width N i prevDir vertices =
     (let p = Vector3 (rd points (real (i * 2))) (rd points (real (i * 2 + 1))) (Num 0);
          n = Vector3 (rd points (real ((i + 1) * 2)))
                      (rd points (real ((i + 1) * 2 + 1))) (Num 0);
          dir = v3_cross (v3_normalize (v3_sub n p)) UNIT_Z;
          aver = (if 0 < i
                  then v3_multiplyScalar (v3_add dir prevDir)
                         (Num 1 - Num 0.5 * v3_dot dir prevDir)
                  else dir)
      in vertex_loop points width N (i + 1) dir (vertices @ offset_pair aver width p))"
  by (subst vertex_loop.simps) (simp add: Let_def)

lemma index_loop_stop:
  "\<not> real i < N - 1 \<Longrightarrow> index_loop baseVertex N i indices = indices"
  by (subst index_loop.simps) simp

lemma index_loop_step:
  "real i < N - 1 \<Longrightarrow>
   index_loop baseVertex N i indices =
     index_loop baseVertex N (i + 1)
       (indices @ map (\<lambda>o'. baseVertex + Num (real (i * 2)) + o') POINTS)"
  by (subst index_loop.simps) simp

lemma reconstruct_loop_step:
  "i < length outBuffer \<Longrightarrow>
   reconstruct_loop inBuffer i i2 outBuffer =
     reconstruct_loop inBuffer (i + 3) (i2 + 6)
          (outBuffer
             [i := to_float32
                (rd32 inBuffer (real i2)
                   + (rd32 inBuffer (real (i2 + 3)) - rd32 inBuffer (real i2)) * Num 0.5),
              i + 1 := to_float32
                (rd32 inBuffer (real (i2 + 1))
                   + (rd32 inBuffer (real (i2 + 3 + 1)) - rd32 inBuffer (real (i2 + 1)))
                       * Num 0.5),
              i + 2 := to_float32
                (rd32 inBuffer (real (i2 + 2))
                   + (rd32 inBuffer (real (i2 + 3 + 2)) - rd32 inBuffer (real (i2 + 2)))
                       * Num 0.5)])"
  by (subst reconstruct_loop.simps) simp

lemma reconstruct_loop_stop:
  "\<not> i < length outBuffer \<Longrightarrow> reconstruct_loop inBuffer i i2 outBuffer = outBuffer"
  by (subst reconstruct_loop.simps) simp

lemmas loop_unfold =
  vertex_loop_stop vertex_loop_last vertex_loop_step index_loop_stop index_loop_step

lemmas v3_defs =
  offset_pair_def v3_normalize_def v3_length_def v3_multiplyScalar_def v3_sub_def
  v3_add_def v3_dot_def v3_cross_def UNIT_Z_def

section \<open>The cap\<close>

lemma addCircle_loop_closed:
  "addCircle_loop x y lineAngle radius baseVertex i (vertices, indices) =
    (vertices @
       concat (map (\<lambda>i. [x + radius * Math_cos (STEP * Num (real i) + Num (pi / 2) + lineAngle),
                          y + radius * Math_sin (STEP * Num (real i) + Num (pi / 2) + lineAngle),
                          Num 0]) [i..<SECTORS_IN_CIRCLE + 1]),
     indices @
       concat (map (\<lambda>i. [baseVertex,
                          baseVertex + Num (real i) + Num 1,
                          baseVertex + Num (real ((i + 1) mod (SECTORS_IN_CIRCLE + 1))) + Num 1])
                 [i..<SECTORS_IN_CIRCLE + 1]))"
proof (induction x y lineAngle radius baseVertex i "(vertices, indices)"
       arbitrary: vertices indices rule: addCircle_loop.induct)
  case (1 x y lineAngle radius baseVertex i vertices indices)
  show ?case
  proof (cases "i < SECTORS_IN_CIRCLE + 1")
    case True
    show ?thesis
      using True "1.hyps" [OF True refl]
      by (subst addCircle_loop.simps) (simp add: upt_conv_Cons Let_def del: upt_Suc)
  next
    case False
    then show ?thesis
      by (subst addCircle_loop.simps) simp
  qed
qed

text \<open>
  Claim C6. Every call of \<open>addCircle\<close> appends the centre \<open>(x, y, 0)\<close> and then, for
  \<open>i = 0, \<dots>, SECTORS_IN_CIRCLE\<close> (nine values), the rim vertex at angle
  \<open>STEP * i + \<pi>/2 + lineAngle\<close>, which is the centre plus \<open>radius\<close> times the cosine and
  the sine of that angle, with z = 0; and it appends nine index triples, the \<open>i\<close>-th
  naming the centre, rim vertex \<open>i\<close> and rim vertex \<open>(i + 1) mod 9\<close>, so that the last
  triangle is (centre, rim 8, rim 0). The offset of a rim vertex from the centre has
  squared length \<open>radius\<^sup>2\<close>.
\<close>

theorem C6_addCircle_geometry:
  "addCircle x y lineAngle radius (vertices, indices) =
    (vertices @ [x, y, Num 0] @
       concat (map (\<lambda>i. [x + radius * Math_cos (STEP * Num (real i) + Num (pi / 2) + lineAngle),
                          y + radius * Math_sin (STEP * Num (real i) + Num (pi / 2) + lineAngle),
                          Num 0]) [0..<SECTORS_IN_CIRCLE + 1]),
     indices @
       concat (map (\<lambda>i. [Num (real (length vertices) / 3),
                          Num (real (length vertices) / 3) + Num (real i) + Num 1,
                          Num (real (length vertices) / 3)
                            + Num (real ((i + 1) mod (SECTORS_IN_CIRCLE + 1))) + Num 1])
                 [0..<SECTORS_IN_CIRCLE + 1]))
   \<and> SECTORS_IN_CIRCLE + 1 = 9
   \<and> (SECTORS_IN_CIRCLE + 1) mod (SECTORS_IN_CIRCLE + 1) = 0
   \<and> Num r * Math_cos (Num t) * (Num r * Math_cos (Num t))
       + Num r * Math_sin (Num t) * (Num r * Math_sin (Num t)) = Num (r * r)"
proof -
  have "r * cos t * (r * cos t) + r * sin t * (r * sin t)
          = r * r * (sin t * sin t + cos t * cos t)"
    by (simp only: distrib_left ac_simps)
  also have "\<dots> = r * r"
    using sin_cos_squared_add [of t] by (simp only: power2_eq_square mult_1_right)
  finally have h: "r * cos t * (r * cos t) + r * sin t * (r * sin t) = r * r" .
  have rim: "Num r * Math_cos (Num t) * (Num r * Math_cos (Num t))
       + Num r * Math_sin (Num t) * (Num r * Math_sin (Num t)) = Num (r * r)"
    by (simp only: Math_cos.simps Math_sin.simps times_number.simps plus_number.simps h)
  have cap: "addCircle x y lineAngle radius (vertices, indices) =
    (vertices @ [x, y, Num 0] @
       concat (map (\<lambda>i. [x + radius * Math_cos (STEP * Num (real i) + Num (pi / 2) + lineAngle),
                          y + radius * Math_sin (STEP * Num (real i) + Num (pi / 2) + lineAngle),
                          Num 0]) [0..<SECTORS_IN_CIRCLE + 1]),
     indices @
       concat (map (\<lambda>i. [Num (real (length vertices) / 3),
                          Num (real (length vertices) / 3) + Num (real i) + Num 1,
                          Num (real (length vertices) / 3)
                            + Num (real ((i + 1) mod (SECTORS_IN_CIRCLE + 1))) + Num 1])
                 [0..<SECTORS_IN_CIRCLE + 1]))"
    by (simp add: addCircle_def addCircle_loop_closed Let_def)
  have "SECTORS_IN_CIRCLE + 1 = 9"
    by (simp add: SECTORS_IN_CIRCLE_def)
  with cap rim show ?thesis
    by simp
qed

lemma addCircle_append:
  "\<exists>vs' is'. addCircle x y lineAngle radius (vertices, indices) = (vertices @ vs', indices @ is')"
  by (simp add: addCircle_def Let_def addCircle_loop_closed)

lemma addCircle_head:
  "\<exists>rest. fst (addCircle x y lineAngle radius (vertices, indices)) =
      vertices @ [x, y, Num 0,
                  x + radius * Math_cos (Num (pi / 2) + lineAngle),
                  y + radius * Math_sin (Num (pi / 2) + lineAngle), Num 0] @ rest"
  by (simp add: addCircle_def Let_def addCircle_loop_closed upt_conv_Cons [of 0]
        STEP_def SECTORS_IN_CIRCLE_def Num_0_add del: upt_Suc)

section \<open>Short inputs\<close>

text \<open>
  Claim C10, as stated, fails for a width that is not a real number: with the width
  \<open>NaN\<close> the zero previous direction times the width is \<open>NaN\<close>, and the two vertices
  appended are not \<open>(x, y, 0)\<close>.
\<close>

theorem C10_counterexample:
  "triangulateLine [Num 3, Num (- 4)] NaN ([], []) False False
     \<noteq> ([Num 3, Num (- 4), Num 0, Num 3, Num (- 4), Num 0], [])"
  by (simp add: triangulateLine_def loop_unfold rd_simps v3_defs Let_def POINTS_def)

text \<open>
  Claim C10, amended. A call with exactly one point \<open>[x, y]\<close>, a real (finite) width
  and no caps passes the length guard, appends the two vertices \<open>(x, y, 0)\<close> and
  \<open>(x, y, 0)\<close>, and appends no index.
\<close>

theorem C10_single_point:
  "triangulateLine [x, y] (Num w) (vertices, indices) False False
     = (vertices @ [x, y, Num 0, x, y, Num 0], indices)"
  by (simp add: triangulateLine_def loop_unfold rd_simps v3_defs Let_def POINTS_def Num_0_add)

text \<open>
  Claim C4, as stated, fails: an input of one point (two numbers) has fewer than two
  points, and the call appends two vertices.
\<close>

theorem C4_counterexample:
  "triangulateLine [Num 1, Num 2] (Num 1) ([], []) False False \<noteq> ([], [])"
  by (simp add: triangulateLine_def loop_unfold rd_simps v3_defs Let_def POINTS_def Num_0_add)

text \<open>
  Claim C4, amended. For every input of fewer than two numbers (no complete point),
  every width and every combination of cap flags, \<open>triangulateLine\<close> returns both
  buffers unchanged.
\<close>

theorem C4_noop_below_two_numbers:
  "length points < 2 \<Longrightarrow>
   triangulateLine points width bufs startWithCircle endWithCircle = bufs"
  by (simp add: triangulateLine_def)

theorem C4_noop_below_two_numbers_witness:
  "length [Num 5] < 2 \<and>
   triangulateLine [Num 5] (Num 1) ([Num 7], [Num 0]) True True = ([Num 7], [Num 0])"
  using C4_noop_below_two_numbers [of "[Num 5]" "Num 1" "([Num 7], [Num 0])" True True]
  by simp

section \<open>The straight two-point line\<close>

text \<open>
  Claim C2, as stated, fails: the vertex buffer the call leaves is not
  \<open>[0,-2,0, 0,2,0, 10,-2,0, 10,2,0]\<close>.
\<close>

theorem C2_counterexample:
  "triangulateLine [Num 0, Num 0, Num 10, Num 0] (Num 2) ([], []) False False \<noteq>
     ([Num 0, Num (- 2), Num 0, Num 0, Num 2, Num 0,
       Num 10, Num (- 2), Num 0, Num 10, Num 2, Num 0],
      [Num 0, Num 1, Num 2, Num 1, Num 3, Num 2])"
  by (simp add: triangulateLine_def loop_unfold rd_simps v3_defs Let_def POINTS_def Num_0_add)

text \<open>
  Claim C2, amended. \<open>triangulateLine([0,0, 10,0], 2, v, i, false, false)\<close> on empty
  buffers leaves \<open>v = [0,2,0, 0,-2,0, 10,2,0, 10,-2,0]\<close> (the vertex offset by \<open>-width\<close>
  along the direction \<open>(0,-1,0)\<close> first) and \<open>i = [0,1,2, 1,3,2]\<close>.
\<close>

theorem C2_straight_line:
  "triangulateLine [Num 0, Num 0, Num 10, Num 0] (Num 2) ([], []) False False =
     ([Num 0, Num 2, Num 0, Num 0, Num (- 2), Num 0,
       Num 10, Num 2, Num 0, Num 10, Num (- 2), Num 0],
      [Num 0, Num 1, Num 2, Num 1, Num 3, Num 2])"
  by (simp add: triangulateLine_def loop_unfold rd_simps v3_defs Let_def POINTS_def Num_0_add)

section \<open>Closed forms of the two loops of \<open>triangulateLine\<close>\<close>

lemma vertex_loop_closed:
  "i \<le> n \<Longrightarrow>
   vertex_loop points width (real n) i (prev_dir points i) vertices =
     vertices @ concat (map (\<lambda>k. offset_pair (averaged_dir points n k) width (point points k)) [i..<n])"
proof (induction "n - i" arbitrary: i vertices)
  case 0
  then show ?case by (simp add: vertex_loop_stop)
next
  case (Suc d)
  then have lt: "i < n" by simp
  show ?case
  proof (cases "i + 1 < n")
    case True
    have pd: "prev_dir points (i + 1) = segment_dir points i"
      by (simp add: prev_dir_def)
    have ih: "vertex_loop points width (real n) (i + 1) (prev_dir points (i + 1)) vs =
        vs @ concat (map (\<lambda>k. offset_pair (averaged_dir points n k) width (point points k)) [i + 1..<n])" for vs
      using Suc.hyps(1) [of "i + 1" vs] Suc.hyps(2) True by simp
    have av: "averaged_dir points n i =
        (if 0 < i
         then v3_multiplyScalar (v3_add (segment_dir points i) (prev_dir points i))
                (Num 1 - Num 0.5 * v3_dot (segment_dir points i) (prev_dir points i))
         else segment_dir points i)"
      using True by (simp add: averaged_dir_def prev_dir_def)
    have "vertex_loop points width (real n) i (prev_dir points i) vertices =
       vertex_loop points width (real n) (i + 1) (segment_dir points i)
          (vertices @ offset_pair (averaged_dir points n i) width (point points i))"
      using lt True
      by (subst vertex_loop_step) (simp_all add: Let_def av segment_dir_def point_def)
    also have "\<dots> = (vertices @ offset_pair (averaged_dir points n i) width (point points i))
        @ concat (map (\<lambda>k. offset_pair (averaged_dir points n k) width (point points k)) [i + 1..<n])"
      using ih pd by simp
    finally show ?thesis
      using lt by (simp add: upt_conv_Cons)
  next
    case False
    with lt have eq: "n = i + 1" by simp
    have av: "averaged_dir points n i = prev_dir points i"
      using False by (simp add: averaged_dir_def)
    have "vertex_loop points width (real n) i (prev_dir points i) vertices =
       vertex_loop points width (real n) (i + 1) (prev_dir points i)
          (vertices @ offset_pair (prev_dir points i) width (point points i))"
      using lt False
      by (subst vertex_loop_last) (simp_all add: point_def)
    also have "\<dots> = vertices @ offset_pair (prev_dir points i) width (point points i)"
      using eq by (simp add: vertex_loop_stop)
    finally show ?thesis
      using eq av by simp
  qed
qed

lemma index_loop_closed:
  "i \<le> n - 1 \<Longrightarrow> 
   index_loop baseVertex (real n) i indices =
     indices @ concat (map (\<lambda>k. map (\<lambda>o'. baseVertex + Num (real (k * 2)) + o') POINTS) [i..<n - 1])"
proof (induction "n - 1 - i" arbitrary: i indices)
  case 0
  then have "\<not> real i < real n - 1" by linarith
  with 0 show ?case by (simp add: index_loop_stop)
next
  case (Suc d)
  then have lt: "i < n - 1" by simp
  then have c: "real i < real n - 1" by linarith
  have ih: "index_loop baseVertex (real n) (i + 1) xs =
     xs @ concat (map (\<lambda>k. map (\<lambda>o'. baseVertex + Num (real (k * 2)) + o') POINTS) [i + 1..<n - 1])" for xs
    using Suc.hyps(1) [of "i + 1" xs] Suc.hyps(2) lt by simp
  show ?case
    using lt ih by (subst index_loop_step [OF c]) (simp add: upt_conv_Cons)
qed

lemma triangulateLine_vertices:
  assumes "even (length points)"
  shows "fst (triangulateLine points width (vertices, indices) False False) =
     vertices @ concat (map (\<lambda>k. offset_pair (averaged_dir points (length points div 2) k) width
                                 (point points k)) [0..<length points div 2])"
proof (cases "length points < 2")
  case True
  with assms have "length points = 0" by presburger
  then show ?thesis by (simp add: triangulateLine_def)
next
  case False
  from assms have N: "real (length points) / 2 = real (length points div 2)"
    by (simp add: real_of_nat_div)
  have z: "Vector3 (Num 0) (Num 0) (Num 0) = prev_dir points 0"
    by (simp add: prev_dir_def)
  show ?thesis
    using False vertex_loop_closed [of 0 "length points div 2" points width vertices]
    by (simp add: triangulateLine_def Let_def N z)
qed

section \<open>The offset directions\<close>

text \<open>
  Claim C7, amended. For a polyline of \<open>n\<close> points (an even number of coordinates)
  and no caps, \<open>triangulateLine\<close> appends, for each point \<open>i\<close> in order, the vertex
  \<open>point - averaged_dir * width\<close> and then the vertex \<open>point + averaged_dir * width\<close>, where
  \<open>averaged_dir\<close> is as defined above: for a point with a successor, the segment
  direction \<open>dir\<close> itself at \<open>i = 0\<close>, and \<open>(dir + prevDir) * (1 - 0.5 * dot dir prevDir)\<close>
  at \<open>i > 0\<close>; for the last point, \<open>prevDir\<close> unchanged. The segment direction is the
  normalized segment crossed with the unit Z vector, which turns \<open>(a, b, c)\<close> into
  \<open>(b, -a, 0)\<close>: the clockwise quarter turn, the perpendicular on the right.
\<close>

theorem C7_offset_directions:
  assumes "even (length points)"
  shows "fst (triangulateLine points width (vertices, indices) False False) =
           vertices @ concat (map (\<lambda>i. offset_pair (averaged_dir points (length points div 2) i)
                                        width (point points i))
                                [0..<length points div 2])
         \<and> v3_cross (Vector3 (Num a) (Num b) (Num c)) UNIT_Z = Vector3 (Num b) (Num (- a)) (Num 0)
         \<and> offset_pair (Vector3 (Num a1) (Num a2) (Num a3)) (Num w)
                         (Vector3 (Num p1) (Num p2) (Num p3)) =
             [Num (p1 - a1 * w), Num (p2 - a2 * w), Num (p3 - a3 * w),
              Num (p1 + a1 * w), Num (p2 + a2 * w), Num (p3 + a3 * w)]"
  using assms by (simp add: triangulateLine_vertices cross_UNIT_Z offset_pair_Num)

theorem C7_offset_directions_witness:
  "even (length [Num 0, Num 0, Num 2, Num 0, Num 2, Num 2]) \<and>
   fst (triangulateLine [Num 0, Num 0, Num 2, Num 0, Num 2, Num 2] (Num 1) ([], []) False False)
     = [Num 0, Num 1, Num 0, Num 0, Num (- 1), Num 0,
        Num 1, Num 1, Num 0, Num 3, Num (- 1), Num 0,
        Num 1, Num 2, Num 0, Num 3, Num 2, Num 0]"
proof -
  have "[0..<length [Num 0, Num 0, Num 2, Num 0, Num 2, Num 2] div 2] = [0, 1, 2]"
    by (simp add: upt_rec)
  then show ?thesis
    using C7_offset_directions [of "[Num 0, Num 0, Num 2, Num 0, Num 2, Num 2]" "Num 1" "[]" "[]"]
    by (simp add: averaged_dir_def prev_dir_def segment_dir_def point_def rd_simps v3_defs Let_def sqrt_4)
qed

text \<open>
  Claim C7, as stated, fails: for the segment from \<open>(0,0)\<close> to \<open>(10,0)\<close> the direction
  \<open>dir\<close> is \<open>(0,-1,0)\<close>, not the left-hand perpendicular \<open>(0,1,0)\<close> of \<open>(1,0,0)\<close>, and
  the vertices appended are not the ones the left-hand perpendicular gives.
\<close>

theorem C7_counterexample:
  "v3_cross (v3_normalize (v3_sub (Vector3 (Num 10) (Num 0) (Num 0))
                                   (Vector3 (Num 0) (Num 0) (Num 0)))) UNIT_Z
     \<noteq> left_perpendicular (v3_normalize (v3_sub (Vector3 (Num 10) (Num 0) (Num 0))
                                                 (Vector3 (Num 0) (Num 0) (Num 0))))
   \<and> fst (triangulateLine [Num 0, Num 0, Num 10, Num 0] (Num 2) ([], []) False False)
     \<noteq> offset_pair (left_perpendicular (v3_normalize (v3_sub (Vector3 (Num 10) (Num 0) (Num 0))
                                                 (Vector3 (Num 0) (Num 0) (Num 0)))))
          (Num 2) (Vector3 (Num 0) (Num 0) (Num 0))
       @ offset_pair (left_perpendicular (v3_normalize (v3_sub (Vector3 (Num 10) (Num 0) (Num 0))
                                                 (Vector3 (Num 0) (Num 0) (Num 0)))))
          (Num 2) (Vector3 (Num 10) (Num 0) (Num 0))"
  by (simp add: triangulateLine_def loop_unfold rd_simps v3_defs Let_def left_perpendicular_def)

section \<open>Buffers only grow\<close>

lemma vertex_loop_append:
  "\<exists>ys. vertex_loop points width N i prevDir vertices = vertices @ ys"
proof (induction "nat \<lceil>N\<rceil> - i" arbitrary: i prevDir vertices)
  case 0
  then have "\<not> real i < N" by linarith
  then show ?case by (simp add: vertex_loop_stop)
next
  case (Suc d)
  have ih: "\<exists>ys. vertex_loop points width N (i + 1) pd vs = vs @ ys" for pd vs
    using Suc.hyps(1) [of "i + 1" pd vs] Suc.hyps(2) by simp
  show ?case
  proof (cases "real i < N")
    case False
    then show ?thesis by (simp add: vertex_loop_stop)
  next
    case True
    show ?thesis
    proof (cases "real (i + 1) < N")
      case False
      obtain ys where "vertex_loop points width N (i + 1) prevDir
          (vertices @ offset_pair prevDir width
             (Vector3 (rd points (real (i * 2))) (rd points (real (i * 2 + 1))) (Num 0)))
        = (vertices @ offset_pair prevDir width
             (Vector3 (rd points (real (i * 2))) (rd points (real (i * 2 + 1))) (Num 0))) @ ys"
        using ih by blast
      then show ?thesis
        by (subst vertex_loop_last [OF True False]) simp
    next
      case step: True
      define p where
        "p = Vector3 (rd points (real (i * 2))) (rd points (real (i * 2 + 1))) (Num 0)"
      define dir where
        "dir = v3_cross (v3_normalize (v3_sub
                 (Vector3 (rd points (real ((i + 1) * 2)))
                          (rd points (real ((i + 1) * 2 + 1))) (Num 0)) p)) UNIT_Z"
      define aver where
        "aver = (if 0 < i
                 then v3_multiplyScalar (v3_add dir prevDir)
                        (Num 1 - Num 0.5 * v3_dot dir prevDir)
                 else dir)"
      obtain ys where "vertex_loop points width N (i + 1) dir
          (vertices @ offset_pair aver width p) = (vertices @ offset_pair aver width p) @ ys"
        using ih by blast
      moreover have "vertex_loop points width N i prevDir vertices =
          vertex_loop points width N (i + 1) dir (vertices @ offset_pair aver width p)"
        using vertex_loop_step [OF True step, of points width prevDir vertices]
        unfolding Let_def p_def dir_def aver_def by simp
      ultimately show ?thesis
        by simp
    qed
  qed
qed

lemma index_loop_append:
  "\<exists>ys. index_loop baseVertex N i indices = indices @ ys"
proof (induction "nat \<lceil>N - 1\<rceil> - i" arbitrary: i indices)
  case 0
  then have "\<not> real i < N - 1" by linarith
  then show ?case by (simp add: index_loop_stop)
next
  case (Suc d)
  have ih: "\<exists>ys. index_loop baseVertex N (i + 1) xs = xs @ ys" for xs
    using Suc.hyps(1) [of "i + 1" xs] Suc.hyps(2) by simp
  show ?case
  proof (cases "real i < N - 1")
    case False
    then show ?thesis by (simp add: index_loop_stop)
  next
    case True
    obtain ys where "index_loop baseVertex N (i + 1)
        (indices @ map (\<lambda>o'. baseVertex + Num (real (i * 2)) + o') POINTS)
      = (indices @ map (\<lambda>o'. baseVertex + Num (real (i * 2)) + o') POINTS) @ ys"
      using ih by blast
    then show ?thesis
      by (subst index_loop_step [OF True]) simp
  qed
qed

lemma triangulateLine_append:
  "\<exists>vs' is'. triangulateLine points width (vertices, indices) startWithCircle endWithCircle
      = (vertices @ vs', indices @ is')"
proof (cases "length points < 2")
  case True
  then show ?thesis by (simp add: triangulateLine_def)
next
  case False
  define bufs1 where "bufs1 = (if startWithCircle
     then addCircle (rd points 0) (rd points 1) (startAngle points) width (vertices, indices)
     else (vertices, indices))"
  obtain v1 i1 where b1: "bufs1 = (vertices @ v1, indices @ i1)"
    using addCircle_append [of "rd points 0" "rd points 1" "startAngle points" width vertices indices]
    by (cases startWithCircle) (auto simp: bufs1_def)
  define N where "N = real (length points) / 2"
  obtain v2 where v2: "vertex_loop points width N 0 (Vector3 (Num 0) (Num 0) (Num 0)) (vertices @ v1)
       = (vertices @ v1) @ v2"
    using vertex_loop_append by blast
  obtain i2 where i2: "index_loop (Num (real (length (vertices @ v1)) / 3)) N 0 (indices @ i1)
       = (indices @ i1) @ i2"
    using index_loop_append by blast
  obtain v3 i3 where c3: "addCircle (rd points ((N - 1) * 2)) (rd points ((N - 1) * 2 + 1))
       (endAngle points) width ((vertices @ v1) @ v2, (indices @ i1) @ i2)
       = (((vertices @ v1) @ v2) @ v3, ((indices @ i1) @ i2) @ i3)"
    using addCircle_append by blast
  have "triangulateLine points width (vertices, indices) startWithCircle endWithCircle =
      (if endWithCircle then (((vertices @ v1) @ v2) @ v3, ((indices @ i1) @ i2) @ i3)
       else ((vertices @ v1) @ v2, (indices @ i1) @ i2))"
    using False b1 v2 i2 c3
    by (simp add: triangulateLine_def Let_def bufs1_def [symmetric] N_def [symmetric])
  then show ?thesis
    by (cases endWithCircle) simp_all
qed

text \<open>
  Claim C9. Every call of \<open>triangulateLine\<close>, with or without caps, returns the vertex
  buffer it was given followed by new elements, and the same for the index buffer: no
  element already present is changed, moved or removed. So a second call on the buffers
  returned by a first call keeps the output of the first call as a prefix.
\<close>

theorem C9_append_only:
  "(\<exists>vs' is'.
      triangulateLine points width (vertices, indices) startWithCircle endWithCircle
        = (vertices @ vs', indices @ is'))
   \<and> (\<exists>vs'' is''.
      triangulateLine points2 width2
          (triangulateLine points width (vertices, indices) startWithCircle endWithCircle)
          startWithCircle2 endWithCircle2
        = (fst (triangulateLine points width (vertices, indices) startWithCircle endWithCircle)
             @ vs'',
           snd (triangulateLine points width (vertices, indices) startWithCircle endWithCircle)
             @ is''))"
proof
  show "\<exists>vs' is'.
      triangulateLine points width (vertices, indices) startWithCircle endWithCircle
        = (vertices @ vs', indices @ is')"
    by (rule triangulateLine_append)
next
  obtain v1 i1 where
    first: "triangulateLine points width (vertices, indices) startWithCircle endWithCircle
              = (v1, i1)"
    by (cases "triangulateLine points width (vertices, indices) startWithCircle endWithCircle")
  show "\<exists>vs'' is''.
      triangulateLine points2 width2
          (triangulateLine points width (vertices, indices) startWithCircle endWithCircle)
          startWithCircle2 endWithCircle2
        = (fst (triangulateLine points width (vertices, indices) startWithCircle endWithCircle)
             @ vs'',
           snd (triangulateLine points width (vertices, indices) startWithCircle endWithCircle)
             @ is'')"
    unfolding first using triangulateLine_append [of points2 width2 v1 i1] by simp
qed

section \<open>The cap angles\<close>

lemma triangulateLine_start_cap:
  assumes "2 \<le> length points"
  shows "\<exists>rest. fst (triangulateLine points width bufs True e) =
     fst (addCircle (rd points 0) (rd points 1) (startAngle points) width bufs) @ rest"
proof -
  define b1 where "b1 = addCircle (rd points 0) (rd points 1) (startAngle points) width bufs"
  define N where "N = real (length points) / 2"
  obtain v2 where v2: "vertex_loop points width N 0 (Vector3 (Num 0) (Num 0) (Num 0)) (fst b1)
       = fst b1 @ v2"
    using vertex_loop_append by blast
  define i2 where "i2 = index_loop (Num (real (length (fst b1)) / 3)) N 0 (snd b1)"
  obtain v3 i3 where c3: "addCircle (rd points ((N - 1) * 2)) (rd points ((N - 1) * 2 + 1))
       (endAngle points) width (fst b1 @ v2, i2) = ((fst b1 @ v2) @ v3, i2 @ i3)"
    using addCircle_append by blast
  have "fst (triangulateLine points width bufs True e) =
      (if e then (fst b1 @ v2) @ v3 else fst b1 @ v2)"
    using assms v2 c3
    by (simp add: triangulateLine_def Let_def b1_def [symmetric] N_def [symmetric] i2_def [symmetric])
  then show ?thesis
    unfolding b1_def by (cases e) simp_all
qed

lemma triangulateLine_start_cap_eq:
  "2 \<le> length points \<Longrightarrow>
   triangulateLine points width bufs True e =
     triangulateLine points width
       (addCircle (rd points 0) (rd points 1) (startAngle points) width bufs) False e"
  by (simp add: triangulateLine_def)

lemma triangulateLine_end_cap_eq:
  "2 \<le> length points \<Longrightarrow>
   triangulateLine points width bufs s True =
     addCircle (rd points ((real (length points) / 2 - 1) * 2))
               (rd points ((real (length points) / 2 - 1) * 2 + 1))
               (endAngle points) width (triangulateLine points width bufs s False)"
  by (simp add: triangulateLine_def Let_def)

lemma last_point_index:
  "2 \<le> n \<Longrightarrow> (real n / 2 - 1) * 2 = real (n - 2)"
  "2 \<le> n \<Longrightarrow> (real n / 2 - 1) * 2 + 1 = real (n - 1)"
  "4 \<le> n \<Longrightarrow> (real n / 2 - 2) * 2 = real (n - 4)"
  "4 \<le> n \<Longrightarrow> (real n / 2 - 2) * 2 + 1 = real (n - 3)"
  by (simp_all add: field_simps of_nat_diff)

lemma rd_first_points:
  assumes "2 \<le> length points"
  shows "rd points 0 = points ! 0" and "rd points 1 = points ! 1"
proof -
  have "0 < length points" "1 < length points"
    using assms by linarith+
  then show "rd points 0 = points ! 0" and "rd points 1 = points ! 1"
    by (simp_all add: rd_0 rd_1)
qed

lemma rd_last_point:
  assumes "2 \<le> length points"
  shows "rd points ((real (length points) / 2 - 1) * 2) = points ! (length points - 2)"
    and "rd points ((real (length points) / 2 - 1) * 2 + 1) = points ! (length points - 1)"
proof -
  show "rd points ((real (length points) / 2 - 1) * 2) = points ! (length points - 2)"
    unfolding last_point_index(1) [OF assms] using assms by (intro rd_lt) arith
  show "rd points ((real (length points) / 2 - 1) * 2 + 1) = points ! (length points - 1)"
    unfolding last_point_index(2) [OF assms] using assms by (intro rd_lt) arith
qed

lemma rd_before_last_point:
  assumes "4 \<le> length points"
  shows "rd points ((real (length points) / 2 - 2) * 2) = points ! (length points - 4)"
    and "rd points ((real (length points) / 2 - 2) * 2 + 1) = points ! (length points - 3)"
proof -
  show "rd points ((real (length points) / 2 - 2) * 2) = points ! (length points - 4)"
    unfolding last_point_index(3) [OF assms] using assms by (intro rd_lt) arith
  show "rd points ((real (length points) / 2 - 2) * 2 + 1) = points ! (length points - 3)"
    unfolding last_point_index(4) [OF assms] using assms by (intro rd_lt) arith
qed

lemma startAngle_nth:
  assumes "2 \<le> length points" "even (length points)"
  shows "startAngle points =
     (if length points = 2 then Num 0
      else v2_angle (Vector2 (points ! 2 - points ! 0) (points ! 3 - points ! 1)))"
proof (cases "length points = 2")
  case True
  then show ?thesis by (simp add: startAngle_def)
next
  case False
  with assms have "4 \<le> length points" by presburger
  then have "0 < length points" "1 < length points" "2 < length points" "3 < length points"
    by linarith+
  then have "rd points 0 = points ! 0" "rd points 1 = points ! 1"
    "rd points 2 = points ! 2" "rd points 3 = points ! 3"
    by (simp_all add: rd_simps)
  then show ?thesis
    using False by (simp add: startAngle_def)
qed

lemma endAngle_nth:
  assumes "2 \<le> length points" "even (length points)"
  shows "endAngle points =
     (if length points = 2 then Math_PI
      else v2_angle (Vector2 (points ! (length points - 4) - points ! (length points - 2))
                             (points ! (length points - 3) - points ! (length points - 1))))"
proof (cases "length points = 2")
  case True
  then show ?thesis by (simp add: endAngle_def)
next
  case False
  with assms have 4: "4 \<le> length points" by presburger
  show ?thesis
    unfolding endAngle_def Let_def rd_last_point [OF assms(1)] rd_before_last_point [OF 4]
    using False by simp
qed

text \<open>
  Claim C5, amended. For an array of at least one point (an even number of at least two
  coordinates): a call with \<open>startWithCircle\<close> does what the call without it does on
  the buffers to which \<open>addCircle\<close> has added a cap at the first point, of radius
  \<open>width\<close> and with the angle of the vector from the first point to the second, or
  with angle 0 when the array holds exactly one point (two numbers); a call with
  \<open>endWithCircle\<close> does what the call without it does and then adds a cap at the last
  point, with the angle of the vector from the last point to the one before it, or
  with angle \<open>\<pi>\<close> when the array holds exactly one point.
\<close>

theorem C5_cap_angles:
  assumes "even (length points)" and "2 \<le> length points"
  shows "triangulateLine points width bufs True e =
           triangulateLine points width
             (addCircle (points ! 0) (points ! 1)
                (if length points = 2 then Num 0
                 else v2_angle (Vector2 (points ! 2 - points ! 0) (points ! 3 - points ! 1)))
                width bufs) False e
       \<and> triangulateLine points width bufs s True =
           addCircle (points ! (length points - 2)) (points ! (length points - 1))
             (if length points = 2 then Math_PI
              else v2_angle (Vector2 (points ! (length points - 4) - points ! (length points - 2))
                                     (points ! (length points - 3) - points ! (length points - 1))))
             width (triangulateLine points width bufs s False)"
  using triangulateLine_start_cap_eq [OF assms(2), of width bufs e]
    triangulateLine_end_cap_eq [OF assms(2), of width bufs s]
  unfolding rd_first_points [OF assms(2)] rd_last_point [OF assms(2)]
    startAngle_nth [OF assms(2,1)] endAngle_nth [OF assms(2,1)]
  by (rule conjI)

theorem C5_cap_angles_witness:
  "even (length [Num 0, Num 0, Num 0, Num 1]) \<and> 2 \<le> length [Num 0, Num 0, Num 0, Num 1]
   \<and> triangulateLine [Num 0, Num 0, Num 0, Num 1] (Num 1) ([], []) True False
       = triangulateLine [Num 0, Num 0, Num 0, Num 1] (Num 1)
           (addCircle (Num 0) (Num 0) (Num (pi / 2)) (Num 1) ([], [])) False False
   \<and> triangulateLine [Num 0, Num 0, Num 0, Num 1] (Num 1) ([], []) False True
       = addCircle (Num 0) (Num 1) (Num (3 * pi / 2)) (Num 1)
           (triangulateLine [Num 0, Num 0, Num 0, Num 1] (Num 1) ([], []) False False)
   \<and> even (length [Num 5, Num 7]) \<and> 2 \<le> length [Num 5, Num 7]
   \<and> triangulateLine [Num 5, Num 7] (Num 1) ([], []) True False
       = triangulateLine [Num 5, Num 7] (Num 1)
           (addCircle (Num 5) (Num 7) (Num 0) (Num 1) ([], [])) False False
   \<and> triangulateLine [Num 5, Num 7] (Num 1) ([], []) False True
       = addCircle (Num 5) (Num 7) (Num pi) (Num 1)
           (triangulateLine [Num 5, Num 7] (Num 1) ([], []) False False)"
  using C5_cap_angles [of "[Num 0, Num 0, Num 0, Num 1]" "Num 1" "([], [])" False False]
    C5_cap_angles [of "[Num 5, Num 7]" "Num 1" "([], [])" False False]
  by (simp add: atan2_def Math_PI_def)

lemma start_cap_of_two_points:
  "triangulateLine [Num 0, Num 0, Num 0, Num 1] (Num 1) ([], []) True False
     \<noteq> triangulateLine [Num 0, Num 0, Num 0, Num 1] (Num 1)
           (addCircle (Num 0) (Num 0) (Num 0) (Num 1) ([], [])) False False"
proof
  assume eq: "triangulateLine [Num 0, Num 0, Num 0, Num 1] (Num 1) ([], []) True False
     = triangulateLine [Num 0, Num 0, Num 0, Num 1] (Num 1)
           (addCircle (Num 0) (Num 0) (Num 0) (Num 1) ([], [])) False False"
  have sa: "startAngle [Num 0, Num 0, Num 0, Num 1] = Num (pi / 2)"
    by (simp add: startAngle_def rd_simps atan2_def)
  obtain r1 where c1: "fst (addCircle (Num 0) (Num 0) (Num (pi / 2)) (Num 1) ([], [])) =
      [Num 0, Num 0, Num 0, Num (- 1), Num 0, Num 0] @ r1"
    using addCircle_head [of "Num 0" "Num 0" "Num (pi / 2)" "Num 1" "[]" "[]"] by auto
  obtain r2 where c2: "fst (addCircle (Num 0) (Num 0) (Num 0) (Num 1) ([], [])) =
      [Num 0, Num 0, Num 0, Num 0, Num 1, Num 0] @ r2"
    using addCircle_head [of "Num 0" "Num 0" "Num 0" "Num 1" "[]" "[]"] by auto
  obtain r3 where l: "fst (triangulateLine [Num 0, Num 0, Num 0, Num 1] (Num 1) ([], []) True False)
      = ([Num 0, Num 0, Num 0, Num (- 1), Num 0, Num 0] @ r1) @ r3"
    using triangulateLine_start_cap [of "[Num 0, Num 0, Num 0, Num 1]" "Num 1" "([], [])" False]
    by (auto simp: sa rd_simps c1)
  obtain b2 where b2: "addCircle (Num 0) (Num 0) (Num 0) (Num 1) ([], [])
      = ([Num 0, Num 0, Num 0, Num 0, Num 1, Num 0] @ r2, b2)"
    using c2 by (cases "addCircle (Num 0) (Num 0) (Num 0) (Num 1) ([], [])") simp
  obtain r4 where r: "fst (triangulateLine [Num 0, Num 0, Num 0, Num 1] (Num 1)
           (addCircle (Num 0) (Num 0) (Num 0) (Num 1) ([], [])) False False)
      = ([Num 0, Num 0, Num 0, Num 0, Num 1, Num 0] @ r2) @ r4"
    unfolding b2
    using triangulateLine_append [of "[Num 0, Num 0, Num 0, Num 1]" "Num 1"
            "[Num 0, Num 0, Num 0, Num 0, Num 1, Num 0] @ r2" b2 False False]
    by auto
  from eq l r show False
    by simp
qed

lemma end_cap_of_two_points:
  "triangulateLine [Num 0, Num 0, Num 0, Num 1] (Num 1) ([], []) False True
     \<noteq> addCircle (Num 0) (Num 1) Math_PI (Num 1)
           (triangulateLine [Num 0, Num 0, Num 0, Num 1] (Num 1) ([], []) False False)"
proof
  assume eq: "triangulateLine [Num 0, Num 0, Num 0, Num 1] (Num 1) ([], []) False True
     = addCircle (Num 0) (Num 1) Math_PI (Num 1)
           (triangulateLine [Num 0, Num 0, Num 0, Num 1] (Num 1) ([], []) False False)"
  obtain V I where B: "triangulateLine [Num 0, Num 0, Num 0, Num 1] (Num 1) ([], []) False False
      = (V, I)"
    by (cases "triangulateLine [Num 0, Num 0, Num 0, Num 1] (Num 1) ([], []) False False")
  have ea: "endAngle [Num 0, Num 0, Num 0, Num 1] = Num (3 * pi / 2)"
    using endAngle_nth [of "[Num 0, Num 0, Num 0, Num 1]"]
    by (simp add: atan2_def Math_PI_def)
  have l: "triangulateLine [Num 0, Num 0, Num 0, Num 1] (Num 1) ([], []) False True
      = addCircle (Num 0) (Num 1) (Num (3 * pi / 2)) (Num 1) (V, I)"
    using triangulateLine_end_cap_eq [of "[Num 0, Num 0, Num 0, Num 1]" "Num 1" "([], [])" False]
      rd_last_point [of "[Num 0, Num 0, Num 0, Num 1]"]
    by (simp add: ea B)
  have c1: "cos (pi / 2 + 3 * pi / 2) = 1"
  proof -
    have "pi / 2 + 3 * pi / 2 = 2 * pi" by simp
    then show ?thesis by (simp only: cos_two_pi)
  qed
  have c2: "cos (pi / 2 + pi) = 0"
    by (simp only: cos_periodic_pi cos_pi_half)
  obtain r1 where a1: "fst (addCircle (Num 0) (Num 1) (Num (3 * pi / 2)) (Num 1) (V, I)) =
      V @ [Num 0, Num 1, Num 0, Num 1] @ r1"
    using addCircle_head [of "Num 0" "Num 1" "Num (3 * pi / 2)" "Num 1" V I] c1
    by (auto simp del: cos_add)
  obtain r2 where a2: "fst (addCircle (Num 0) (Num 1) Math_PI (Num 1) (V, I)) =
      V @ [Num 0, Num 1, Num 0, Num 0] @ r2"
    using addCircle_head [of "Num 0" "Num 1" "Math_PI" "Num 1" V I] c2
    by (auto simp: Math_PI_def)
  from eq show False
    unfolding l B using a1 a2 by simp
qed

text \<open>
  Claim C5, as stated, fails: for the polyline of exactly two points \<open>(0,0), (0,1)\<close>
  the start cap is not the cap of angle 0 (its angle is \<open>\<pi>/2\<close>), and the end cap is
  not the cap of angle \<open>\<pi>\<close> (its angle is \<open>3\<pi>/2\<close>).
\<close>

theorem C5_counterexample:
  "triangulateLine [Num 0, Num 0, Num 0, Num 1] (Num 1) ([], []) True False
     \<noteq> triangulateLine [Num 0, Num 0, Num 0, Num 1] (Num 1)
           (addCircle (Num 0) (Num 0) (Num 0) (Num 1) ([], [])) False False
   \<and> triangulateLine [Num 0, Num 0, Num 0, Num 1] (Num 1) ([], []) False True
     \<noteq> addCircle (Num 0) (Num 1) Math_PI (Num 1)
           (triangulateLine [Num 0, Num 0, Num 0, Num 1] (Num 1) ([], []) False False)"
  using start_cap_of_two_points end_cap_of_two_points by (rule conjI)

section \<open>reconstructLine\<close>

lemma reconstruct_loop_length:
  "length (reconstruct_loop inBuffer i i2 outBuffer) = length outBuffer"
proof (induction "length outBuffer - i" arbitrary: i i2 outBuffer rule: less_induct)
  case less
  show ?case
  proof (cases "i < length outBuffer")
    case True
    then show ?thesis
      by (subst reconstruct_loop_step [OF True], subst less.hyps) simp_all
  next
    case False
    then show ?thesis by (simp add: reconstruct_loop_stop)
  qed
qed

lemma reconstruct_loop_nth:
  "j < length outBuffer \<Longrightarrow>
   reconstruct_loop inBuffer (3 * k) (6 * k) outBuffer ! j =
     (if j < 3 * k then outBuffer ! j else midpoint_at inBuffer j)"
proof (induction "length outBuffer - 3 * k" arbitrary: k outBuffer rule: less_induct)
  case less
  show ?case
  proof (cases "3 * k < length outBuffer")
    case False
    with less.prems show ?thesis by (simp add: reconstruct_loop_stop)
  next
    case True
    let ?out = "outBuffer
             [3 * k := to_float32
                (rd32 inBuffer (real (6 * k))
                   + (rd32 inBuffer (real (6 * k + 3)) - rd32 inBuffer (real (6 * k))) * Num 0.5),
              3 * k + 1 := to_float32
                (rd32 inBuffer (real (6 * k + 1))
                   + (rd32 inBuffer (real (6 * k + 3 + 1)) - rd32 inBuffer (real (6 * k + 1)))
                       * Num 0.5),
              3 * k + 2 := to_float32
                (rd32 inBuffer (real (6 * k + 2))
                   + (rd32 inBuffer (real (6 * k + 3 + 2)) - rd32 inBuffer (real (6 * k + 2)))
                       * Num 0.5)]"
    have step: "reconstruct_loop inBuffer (3 * k) (6 * k) outBuffer =
        reconstruct_loop inBuffer (3 * (k + 1)) (6 * (k + 1)) ?out"
      using reconstruct_loop_step [OF True, of inBuffer "6 * k"] by (simp add: algebra_simps)
    have ih: "reconstruct_loop inBuffer (3 * (k + 1)) (6 * (k + 1)) ?out ! j =
       (if j < 3 * (k + 1) then ?out ! j else midpoint_at inBuffer j)"
      using less.hyps [of ?out "k + 1"] True less.prems by simp
    have "j < 3 * k \<or> j = 3 * k \<or> j = 3 * k + 1 \<or> j = 3 * k + 2 \<or> 3 * (k + 1) \<le> j"
      by arith
    then consider "j < 3 * k" | "j = 3 * k" | "j = 3 * k + 1" | "j = 3 * k + 2" | "3 * (k + 1) \<le> j"
      by blast
    then show ?thesis
    proof cases
      case 1
      then show ?thesis unfolding step ih using less.prems by simp
    next
      case 2
      then show ?thesis unfolding step ih using less.prems by (simp add: midpoint_at_def)
    next
      case 3
      then have "j div 3 = k" "j mod 3 = 1" by presburger+
      with 3 show ?thesis unfolding step ih using less.prems by (simp add: midpoint_at_def add.commute)
    next
      case 4
      then have "j div 3 = k" "j mod 3 = 2" by presburger+
      with 4 show ?thesis unfolding step ih using less.prems by (simp add: midpoint_at_def add.commute)
    next
      case 5
      then show ?thesis unfolding step ih by simp
    qed
  qed
qed

lemma reconstructLine_length:
  "length (reconstructLine inBuffer startOffset) = length inBuffer div 2"
  by (simp add: reconstructLine_def reconstruct_loop_length)

lemma reconstructLine_nth:
  "j < length inBuffer div 2 \<Longrightarrow>
   reconstructLine inBuffer startOffset ! j =
     (if j < 3 * startOffset then Num 0 else midpoint_at inBuffer j)"
  using reconstruct_loop_nth [of j "replicate (length inBuffer div 2) (Num 0)" inBuffer startOffset]
  by (simp add: reconstructLine_def mult.commute)

text \<open>
  Claim C8, amended. For every input vertex buffer and every \<open>startOffset\<close>,
  \<open>reconstructLine\<close> returns a buffer whose length is half the number of components of
  the input (rounded down), whatever \<open>startOffset\<close> is. Every component of an output
  point \<open>k\<close> from \<open>startOffset\<close> onward is the midpoint of the input vertices \<open>2k\<close> and
  \<open>2k + 1\<close> (of their binary32 values, and stored as a binary32 value), whether these
  are vertices of the stroke or, in the tail, of the end cap.
  The components before \<open>3 * startOffset\<close>, the head, are not reconstructed: they are 0.
\<close>

theorem C8_reconstructLine_contract:
  "length (reconstructLine inBuffer startOffset) = length inBuffer div 2 \<and>
   (\<forall>j < length inBuffer div 2.
      reconstructLine inBuffer startOffset ! j =
        (if j < 3 * startOffset then Num 0 else midpoint_at inBuffer j))"
  by (simp add: reconstructLine_length reconstructLine_nth)

theorem C8_reconstructLine_contract_witness:
  "length (reconstructLine [Num 1, Num 1, Num 0, Num 3, Num 3, Num 0,
                            Num 5, Num 5, Num 0, Num 7, Num 7, Num 0] 1) = 6 \<and>
   (0::nat) < 6 \<and> (3::nat) < 6 \<and>
   reconstructLine [Num 1, Num 1, Num 0, Num 3, Num 3, Num 0,
                    Num 5, Num 5, Num 0, Num 7, Num 7, Num 0] 1 ! 0 = Num 0 \<and>
   reconstructLine [Num 1, Num 1, Num 0, Num 3, Num 3, Num 0,
                    Num 5, Num 5, Num 0, Num 7, Num 7, Num 0] 1 ! 3 = Num 6"
  using C8_reconstructLine_contract
          [of "[Num 1, Num 1, Num 0, Num 3, Num 3, Num 0,
                Num 5, Num 5, Num 0, Num 7, Num 7, Num 0]" 1]
  by (simp add: midpoint_at_def rd32_def rd_simps binary32_simps)

text \<open>
  Claim C8, as stated, fails at the head of the output: for the line from \<open>(3,0)\<close> to
  \<open>(4,0)\<close> of width 1 with both caps, and \<open>startOffset = 5\<close> (the ten vertices of the
  start cap), the first component of the output is 0 and not the midpoint of the first
  two vertices of the cap, which is 3.
\<close>

theorem C8_counterexample:
  "reconstructLine
     (fst (triangulateLine [Num 3, Num 0, Num 4, Num 0] (Num 1) ([], []) True True)) 5 ! 0
   \<noteq> midpoint_at
     (fst (triangulateLine [Num 3, Num 0, Num 4, Num 0] (Num 1) ([], []) True True)) 0"
proof -
  define V where "V = fst (triangulateLine [Num 3, Num 0, Num 4, Num 0] (Num 1) ([], []) True True)"
  have sa: "startAngle [Num 3, Num 0, Num 4, Num 0] = Num 0"
    by (simp add: startAngle_def rd_simps atan2_0_1)
  have "\<exists>rest. fst (addCircle (Num 3) (Num 0) (Num 0) (Num 1) ([], []))
           = [Num 3, Num 0, Num 0, Num 3, Num 1, Num 0] @ rest"
    by (simp add: addCircle_def Let_def addCircle_loop_closed upt_conv_Cons [of 0]
          STEP_def SECTORS_IN_CIRCLE_def del: upt_Suc)
  then obtain rest where V: "V = [Num 3, Num 0, Num 0, Num 3, Num 1, Num 0] @ rest"
    using triangulateLine_start_cap [of "[Num 3, Num 0, Num 4, Num 0]" "Num 1" "([], [])" True]
    unfolding V_def by (auto simp: sa rd_simps)
  then have m: "midpoint_at V 0 = Num 3"
    by (simp add: midpoint_at_def rd32_def rd_simps binary32_simps)
  have "0 < length V div 2"
    using V by simp
  then have "reconstructLine V 5 ! 0 = Num 0"
    by (simp add: reconstructLine_nth)
  with m show ?thesis
    unfolding V_def by simp
qed

section \<open>The round trip\<close>

lemma point_map_Num:
  "2 * k + 1 < length ps \<Longrightarrow>
   point (map Num ps) k = Vector3 (Num (ps ! (2 * k))) (Num (ps ! (2 * k + 1))) (Num 0)"
  unfolding point_def rd_nat by (simp add: mult.commute)

lemma abs_le_norm2: "\<bar>a\<bar> \<le> sqrt (a * a + b * b)" "\<bar>b\<bar> \<le> sqrt (a * a + b * b)"
proof -
  have "sqrt (a * a) \<le> sqrt (a * a + b * b)" "sqrt (b * b) \<le> sqrt (a * a + b * b)"
    by (simp_all only: real_sqrt_le_iff) simp_all
  then show "\<bar>a\<bar> \<le> sqrt (a * a + b * b)" "\<bar>b\<bar> \<le> sqrt (a * a + b * b)"
    by simp_all
qed

lemma normalized_component_le_1:
  assumes "l = sqrt (a * a + b * b)"
  shows "\<bar>a * (1 / (if l = 0 then 1 else l))\<bar> \<le> 1" "\<bar>b * (1 / (if l = 0 then 1 else l))\<bar> \<le> 1"
proof -
  have l0: "0 \<le> l" by (simp add: assms)
  have ab: "\<bar>a\<bar> \<le> l" "\<bar>b\<bar> \<le> l"
    unfolding assms by (rule abs_le_norm2)+
  show "\<bar>a * (1 / (if l = 0 then 1 else l))\<bar> \<le> 1"
  proof (cases "l = 0")
    case True
    with ab show ?thesis by simp
  next
    case False
    with l0 have "0 < l" by simp
    then show ?thesis using ab by (simp add: abs_mult)
  qed
  show "\<bar>b * (1 / (if l = 0 then 1 else l))\<bar> \<le> 1"
  proof (cases "l = 0")
    case True
    with ab show ?thesis by simp
  next
    case False
    with l0 have "0 < l" by simp
    then show ?thesis using ab by (simp add: abs_mult)
  qed
qed

lemma segment_dir_bounded:
  assumes len: "2 * k + 3 < length ps"
  shows "\<exists>s1 s2. segment_dir (map Num ps) k = Vector3 (Num s1) (Num s2) (Num 0)
           \<and> \<bar>s1\<bar> \<le> 1 \<and> \<bar>s2\<bar> \<le> 1"
proof -
  define dx where "dx = ps ! (2 * k + 2) - ps ! (2 * k)"
  define dy where "dy = ps ! (2 * k + 3) - ps ! (2 * k + 1)"
  define l where "l = sqrt (dx * dx + dy * dy)"
  define L where "L = (if l = 0 then 1 else l)"
  have p0: "point (map Num ps) k = Vector3 (Num (ps ! (2 * k))) (Num (ps ! (2 * k + 1))) (Num 0)"
    using len by (intro point_map_Num) simp
  have p1: "point (map Num ps) (k + 1) =
      Vector3 (Num (ps ! (2 * k + 2))) (Num (ps ! (2 * k + 3))) (Num 0)"
    using len point_map_Num [of "k + 1" ps] by (simp add: numeral_3_eq_3)
  have d: "v3_sub (point (map Num ps) (k + 1)) (point (map Num ps) k)
      = Vector3 (Num dx) (Num dy) (Num 0)"
    unfolding p0 p1 by (simp add: v3_sub_def dx_def dy_def)
  have nn: "\<not> dx * dx + dy * dy < 0"
    by (simp add: not_less)
  have "v3_length (Vector3 (Num dx) (Num dy) (Num 0)) = Num l"
    using nn by (simp add: v3_length_def l_def)
  then have n: "v3_normalize (Vector3 (Num dx) (Num dy) (Num 0)) =
      Vector3 (Num (dx * (1 / L))) (Num (dy * (1 / L))) (Num 0)"
    by (simp add: v3_normalize_def v3_multiplyScalar_def L_def)
  have s: "segment_dir (map Num ps) k = Vector3 (Num (dy * (1 / L))) (Num (- (dx * (1 / L)))) (Num 0)"
    unfolding segment_dir_def d n by (rule cross_UNIT_Z)
  have "\<bar>dx * (1 / L)\<bar> \<le> 1" "\<bar>dy * (1 / L)\<bar> \<le> 1"
    unfolding L_def using normalized_component_le_1 [OF l_def] by blast+
  then show ?thesis
    using s by simp
qed

lemma prev_dir_bounded:
  assumes "2 * k + 1 < length ps"
  shows "\<exists>s1 s2. prev_dir (map Num ps) k = Vector3 (Num s1) (Num s2) (Num 0)
           \<and> \<bar>s1\<bar> \<le> 1 \<and> \<bar>s2\<bar> \<le> 1"
proof (cases k)
  case 0
  then show ?thesis by (simp add: prev_dir_def)
next
  case (Suc j)
  then have "2 * j + 3 < length ps" using assms by simp
  then show ?thesis
    using segment_dir_bounded [of j ps] Suc by (simp add: prev_dir_def)
qed

lemma miter_component_bound:
  assumes "\<bar>s1\<bar> \<le> 1" "\<bar>s2\<bar> \<le> 1" "\<bar>r1\<bar> \<le> 1" "\<bar>r2\<bar> \<le> (1::real)"
  shows "\<bar>(s1 + r1) * (1 - 1 / 2 * (s1 * r1 + s2 * r2))\<bar> \<le> 4"
proof -
  have "\<bar>s1 * r1\<bar> \<le> 1 * 1" "\<bar>s2 * r2\<bar> \<le> 1 * 1"
    unfolding abs_mult using assms by (intro mult_mono; simp)+
  then have "\<bar>1 - 1 / 2 * (s1 * r1 + s2 * r2)\<bar> \<le> 2"
    by (simp add: abs_le_iff)
  moreover have "\<bar>s1 + r1\<bar> \<le> 2"
    using assms by (simp add: abs_le_iff)
  ultimately have "\<bar>s1 + r1\<bar> * \<bar>1 - 1 / 2 * (s1 * r1 + s2 * r2)\<bar> \<le> 2 * 2"
    by (intro mult_mono) simp_all
  then show ?thesis
    by (simp add: abs_mult)
qed

lemma averaged_dir_bounded:
  assumes len: "length ps = 2 * n" and k: "k < n"
  shows "\<exists>a1 a2. averaged_dir (map Num ps) n k = Vector3 (Num a1) (Num a2) (Num 0)
           \<and> \<bar>a1\<bar> \<le> 4 \<and> \<bar>a2\<bar> \<le> 4"
proof (cases "k + 1 < n")
  case False
  obtain s1 s2 where "prev_dir (map Num ps) k = Vector3 (Num s1) (Num s2) (Num 0)"
    "\<bar>s1\<bar> \<le> 1" "\<bar>s2\<bar> \<le> 1"
    using prev_dir_bounded [of k ps] len k by auto
  then show ?thesis
    using False by (auto simp: averaged_dir_def)
next
  case True
  obtain s1 s2 where s: "segment_dir (map Num ps) k = Vector3 (Num s1) (Num s2) (Num 0)"
    "\<bar>s1\<bar> \<le> 1" "\<bar>s2\<bar> \<le> 1"
    using segment_dir_bounded [of k ps] len True by auto
  show ?thesis
  proof (cases "0 < k")
    case False
    with True s show ?thesis by (auto simp: averaged_dir_def)
  next
    case pos: True
    have "2 * (k - 1) + 3 < length ps"
      using len True pos by simp
    then obtain r1 r2 where r: "segment_dir (map Num ps) (k - 1) = Vector3 (Num r1) (Num r2) (Num 0)"
      "\<bar>r1\<bar> \<le> 1" "\<bar>r2\<bar> \<le> 1"
      using segment_dir_bounded [of "k - 1" ps] by blast
    have "averaged_dir (map Num ps) n k =
        v3_multiplyScalar (v3_add (segment_dir (map Num ps) k) (segment_dir (map Num ps) (k - 1)))
          (Num 1 - Num 0.5 * v3_dot (segment_dir (map Num ps) k) (segment_dir (map Num ps) (k - 1)))"
      using True pos unfolding averaged_dir_def by (simp only: if_True)
    then have "averaged_dir (map Num ps) n k =
        Vector3 (Num ((s1 + r1) * (1 - 1 / 2 * (s1 * r1 + s2 * r2))))
                (Num ((s2 + r2) * (1 - 1 / 2 * (s1 * r1 + s2 * r2)))) (Num 0)"
      unfolding s(1) r(1) by (simp add: v3_add_def v3_dot_def v3_multiplyScalar_def)
    moreover have "\<bar>(s1 + r1) * (1 - 1 / 2 * (s1 * r1 + s2 * r2))\<bar> \<le> 4"
      using s(2,3) r(2,3) by (rule miter_component_bound)
    moreover have "\<bar>(s2 + r2) * (1 - 1 / 2 * (s2 * r2 + s1 * r1))\<bar> \<le> 4"
      using s(3,2) r(3,2) by (rule miter_component_bound)
    ultimately show ?thesis
      by (simp add: add.commute)
  qed
qed

lemma triangulateLine_pair:
  assumes len: "length ps = 2 * n" and k: "k < n"
    and V: "V = fst (triangulateLine (map Num ps) (Num w) ([], []) False False)"
  shows "\<exists>a1 a2. averaged_dir (map Num ps) n k = Vector3 (Num a1) (Num a2) (Num 0)
      \<and> \<bar>a1\<bar> \<le> 4 \<and> \<bar>a2\<bar> \<le> 4 \<and> length V = 6 * n
      \<and> V ! (6 * k) = Num (ps ! (2 * k) - a1 * w)
      \<and> V ! (6 * k + 1) = Num (ps ! (2 * k + 1) - a2 * w)
      \<and> V ! (6 * k + 2) = Num 0
      \<and> V ! (6 * k + 3) = Num (ps ! (2 * k) + a1 * w)
      \<and> V ! (6 * k + 4) = Num (ps ! (2 * k + 1) + a2 * w)
      \<and> V ! (6 * k + 5) = Num 0"
proof -
  let ?f = "\<lambda>k. offset_pair (averaged_dir (map Num ps) n k) (Num w) (point (map Num ps) k)"
  have n: "length (map Num ps) div 2 = n" and ev: "even (length (map Num ps))"
    using len by simp_all
  have Vc: "V = concat (map ?f [0..<n])"
    unfolding V using triangulateLine_vertices [OF ev, of "Num w" "[]" "[]"]
    by (simp only: n append_Nil)
  have lenV: "length V = n * 6"
    unfolding Vc by (rule length_concat_blocks) (rule length_offset_pair)
  have nth: "V ! (k * 6 + c) = ?f k ! c" if "c < 6" for c
    unfolding Vc using k that by (intro concat_blocks_nth) (simp_all add: length_offset_pair)
  obtain a1 a2 where a: "averaged_dir (map Num ps) n k = Vector3 (Num a1) (Num a2) (Num 0)"
    "\<bar>a1\<bar> \<le> 4" "\<bar>a2\<bar> \<le> 4"
    using averaged_dir_bounded [OF len k] by blast
  have p: "point (map Num ps) k = Vector3 (Num (ps ! (2 * k))) (Num (ps ! (2 * k + 1))) (Num 0)"
    using len k by (intro point_map_Num) simp
  have f: "?f k = [Num (ps ! (2 * k) - a1 * w), Num (ps ! (2 * k + 1) - a2 * w), Num 0,
                   Num (ps ! (2 * k) + a1 * w), Num (ps ! (2 * k + 1) + a2 * w), Num 0]"
    unfolding a(1) p offset_pair_Num by simp
  have "V ! (6 * k) = Num (ps ! (2 * k) - a1 * w)"
    using nth [of 0] unfolding f by (simp add: mult.commute)
  moreover have "V ! (6 * k + 1) = Num (ps ! (2 * k + 1) - a2 * w)"
    using nth [of 1] unfolding f by (simp add: mult.commute)
  moreover have "V ! (6 * k + 2) = Num 0"
    using nth [of 2] unfolding f by (simp add: mult.commute)
  moreover have "V ! (6 * k + 3) = Num (ps ! (2 * k) + a1 * w)"
    using nth [of 3] unfolding f by (simp add: mult.commute)
  moreover have "V ! (6 * k + 4) = Num (ps ! (2 * k + 1) + a2 * w)"
    using nth [of 4] unfolding f by (simp add: mult.commute)
  moreover have "V ! (6 * k + 5) = Num 0"
    using nth [of 5] unfolding f by (simp add: mult.commute)
  ultimately show ?thesis
    using a lenV by (simp add: mult.commute)
qed

lemma midpoint_at_pair:
  assumes c: "c < 3" and len: "6 * k + 3 + c < length V"
    and lo: "V ! (6 * k + c) = Num (p - t)" and hi: "V ! (6 * k + 3 + c) = Num (p + t)"
  shows "midpoint_at V (3 * k + c) =
     Num (binary32 (binary32 (p - t) + (binary32 (p + t) - binary32 (p - t)) * (1 / 2)))"
proof -
  have d: "(3 * k + c) div 3 = k" "(3 * k + c) mod 3 = c"
    using c by simp_all
  have l: "6 * k + c < length V"
    using len by simp
  show ?thesis
    unfolding midpoint_at_def d rd32_nat using len l lo hi by simp
qed

lemma tolerance_met:
  assumes "e \<le> A / 2 ^ 22 + 1 / 2 ^ 148" and "A \<le> (40::real)"
  shows "e \<le> 1 / 100000"
proof -
  have "A / 2 ^ 22 \<le> 40 / 2 ^ 22"
    using assms(2) by (simp add: divide_right_mono)
  moreover have "(40::real) / 2 ^ 22 + 1 / 2 ^ 148 \<le> 1 / 100000"
    by simp
  ultimately show ?thesis
    using assms(1) by linarith
qed

lemma round_trip_point:
  assumes len: "length ps = 2 * n" and k: "k < n"
    and V: "V = fst (triangulateLine (map Num ps) (Num w) ([], []) False False)"
  shows "\<exists>mx my. reconstructLine V 0 ! (3 * k) = Num mx
           \<and> reconstructLine V 0 ! (3 * k + 1) = Num my
           \<and> reconstructLine V 0 ! (3 * k + 2) = Num 0
           \<and> \<bar>mx - ps ! (2 * k)\<bar> \<le> (\<bar>ps ! (2 * k)\<bar> + 4 * \<bar>w\<bar>) / 2 ^ 22 + 1 / 2 ^ 148
           \<and> \<bar>my - ps ! (2 * k + 1)\<bar> \<le> (\<bar>ps ! (2 * k + 1)\<bar> + 4 * \<bar>w\<bar>) / 2 ^ 22 + 1 / 2 ^ 148"
proof -
  obtain a1 a2 where a: "\<bar>a1\<bar> \<le> 4" "\<bar>a2\<bar> \<le> 4" and lenV: "length V = 6 * n"
    and v: "V ! (6 * k) = Num (ps ! (2 * k) - a1 * w)"
      "V ! (6 * k + 1) = Num (ps ! (2 * k + 1) - a2 * w)"
      "V ! (6 * k + 2) = Num 0"
      "V ! (6 * k + 3) = Num (ps ! (2 * k) + a1 * w)"
      "V ! (6 * k + 4) = Num (ps ! (2 * k + 1) + a2 * w)"
      "V ! (6 * k + 5) = Num 0"
    using triangulateLine_pair [OF len k V] by blast
  have in_range: "6 * k + 5 < length V"
    using k lenV by simp
  have j: "3 * k < length V div 2" "3 * k + 1 < length V div 2" "3 * k + 2 < length V div 2"
    using k lenV by simp_all
  have out: "reconstructLine V 0 ! j = midpoint_at V j" if "j < length V div 2" for j
    using reconstructLine_nth [OF that, of 0] by simp
  have mx: "midpoint_at V (3 * k + 0) =
      Num (binary32 (binary32 (ps ! (2 * k) - a1 * w)
        + (binary32 (ps ! (2 * k) + a1 * w) - binary32 (ps ! (2 * k) - a1 * w)) * (1 / 2)))"
    using in_range v(1,4) by (intro midpoint_at_pair) simp_all
  have my: "midpoint_at V (3 * k + 1) =
      Num (binary32 (binary32 (ps ! (2 * k + 1) - a2 * w)
        + (binary32 (ps ! (2 * k + 1) + a2 * w) - binary32 (ps ! (2 * k + 1) - a2 * w)) * (1 / 2)))"
    using in_range v(2,5) by (intro midpoint_at_pair) (simp_all add: add.commute)
  have "midpoint_at V (3 * k + 2) =
      Num (binary32 (binary32 (0 - 0) + (binary32 (0 + 0) - binary32 (0 - 0)) * (1 / 2)))"
    using in_range v(3,6) by (intro midpoint_at_pair) (simp_all add: add.commute)
  then have mz: "midpoint_at V (3 * k + 2) = Num 0"
    by (simp add: binary32_0)
  have t1: "\<bar>a1 * w\<bar> \<le> 4 * \<bar>w\<bar>" and t2: "\<bar>a2 * w\<bar> \<le> 4 * \<bar>w\<bar>"
    unfolding abs_mult using a by (simp_all add: mult_right_mono)
  have "\<bar>binary32 (binary32 (ps ! (2 * k) - a1 * w)
        + (binary32 (ps ! (2 * k) + a1 * w) - binary32 (ps ! (2 * k) - a1 * w)) * (1 / 2))
        - ps ! (2 * k)\<bar> \<le> (\<bar>ps ! (2 * k)\<bar> + \<bar>a1 * w\<bar>) / 2 ^ 22 + 1 / 2 ^ 148"
    by (rule binary32_midpoint_error)
  also have "\<dots> \<le> (\<bar>ps ! (2 * k)\<bar> + 4 * \<bar>w\<bar>) / 2 ^ 22 + 1 / 2 ^ 148"
    using t1 by (simp add: divide_right_mono)
  finally have ex: "\<bar>binary32 (binary32 (ps ! (2 * k) - a1 * w)
        + (binary32 (ps ! (2 * k) + a1 * w) - binary32 (ps ! (2 * k) - a1 * w)) * (1 / 2))
        - ps ! (2 * k)\<bar> \<le> (\<bar>ps ! (2 * k)\<bar> + 4 * \<bar>w\<bar>) / 2 ^ 22 + 1 / 2 ^ 148" .
  have "\<bar>binary32 (binary32 (ps ! (2 * k + 1) - a2 * w)
        + (binary32 (ps ! (2 * k + 1) + a2 * w) - binary32 (ps ! (2 * k + 1) - a2 * w)) * (1 / 2))
        - ps ! (2 * k + 1)\<bar> \<le> (\<bar>ps ! (2 * k + 1)\<bar> + \<bar>a2 * w\<bar>) / 2 ^ 22 + 1 / 2 ^ 148"
    by (rule binary32_midpoint_error)
  also have "\<dots> \<le> (\<bar>ps ! (2 * k + 1)\<bar> + 4 * \<bar>w\<bar>) / 2 ^ 22 + 1 / 2 ^ 148"
    using t2 by (simp add: divide_right_mono)
  finally have ey: "\<bar>binary32 (binary32 (ps ! (2 * k + 1) - a2 * w)
        + (binary32 (ps ! (2 * k + 1) + a2 * w) - binary32 (ps ! (2 * k + 1) - a2 * w)) * (1 / 2))
        - ps ! (2 * k + 1)\<bar> \<le> (\<bar>ps ! (2 * k + 1)\<bar> + 4 * \<bar>w\<bar>) / 2 ^ 22 + 1 / 2 ^ 148" .
  from my mz show ?thesis
    unfolding out [OF j(1)] out [OF j(2)] out [OF j(3)] using mx ex ey
    by (intro exI conjI) (simp_all only: add_0_right)
qed

lemma triangulateLine_vertices_length:
  assumes "even (length points)"
  shows "length (fst (triangulateLine points width ([], []) False False))
           = 6 * (length points div 2)"
proof -
  have "length (concat (map (\<lambda>k. offset_pair (averaged_dir points (length points div 2) k) width
                                 (point points k)) [0..<length points div 2]))
      = length points div 2 * 6"
    by (rule length_concat_blocks) (rule length_offset_pair)
  then show ?thesis
    unfolding triangulateLine_vertices [OF assms] by simp
qed

lemma binary32_1000_1: "binary32 (10001 / 10) = 8192819 / 8192"
  using binary32_in_binade [of 9 "10001 / 10"]
  by (simp add: round_half_even_def powr_minus_divide)

lemma binary32_1000_1_stored: "binary32 (8192819 / 8192) = 8192819 / 8192"
  using binary32_representable [of 8192819 "- 13"]
  by (simp add: powr_minus_divide)

text \<open>
  Claim C1, as stated, fails: the vertex buffer that \<open>reconstructLine\<close> takes is a
  \<open>Float32Array\<close>, and a coordinate that is not a binary32 value is recovered only up to
  its rounding. For the polyline \<open>(1000.1, 0), (2000.2, 0)\<close> of width 1 the first
  coordinate recovered is \<open>8192819 / 8192 = 1000.0999755859375\<close>, the binary32 value
  nearest to 1000.1, which is more than \<open>10\<^sup>-\<^sup>5\<close> away from it.
\<close>

theorem C1_counterexample:
  "reconstructLine
     (fst (triangulateLine [Num 1000.1, Num 0, Num 2000.2, Num 0] (Num 1) ([], []) False False))
     0 ! 0 = Num (8192819 / 8192)
   \<and> 1 / 100000 < \<bar>8192819 / 8192 - (1000.1::real)\<bar>"
proof -
  define V where
    "V = fst (triangulateLine [Num 1000.1, Num 0, Num 2000.2, Num 0] (Num 1) ([], []) False False)"
  have len: "length V = 12"
    unfolding V_def using triangulateLine_vertices_length [of "[Num 1000.1, Num 0, Num 2000.2, Num 0]" "Num 1"]
    by simp
  have v: "V ! 0 = Num (10001 / 10)" "V ! 3 = Num (10001 / 10)"
    unfolding V_def
    by (simp_all add: triangulateLine_def loop_unfold rd_simps v3_defs Let_def)
  have "reconstructLine V 0 ! 0 = midpoint_at V 0"
    using reconstructLine_nth [of 0 V 0] len by simp
  also have "\<dots> = Num (8192819 / 8192)"
    using len v
    by (simp add: midpoint_at_def rd32_def rd_simps binary32_1000_1 binary32_1000_1_stored)
  finally show ?thesis
    unfolding V_def by simp
qed

text \<open>
  Claim C1, amended. For every polyline of real coordinates (an even number of them,
  each of magnitude at most \<open>2\<^sup>1\<^sup>0\<^sup>0\<close>) extruded with a real width \<open>w\<close> of magnitude at most
  \<open>2\<^sup>1\<^sup>0\<^sup>0\<close> and no caps into empty buffers, \<open>reconstructLine\<close> at \<open>startOffset\<close> 0
  returns three numbers for each point \<open>(x, y)\<close> of the polyline, in order: \<open>mx\<close>, \<open>my\<close>
  and 0, where \<open>mx\<close> is \<open>x\<close> up to the rounding of the vertex buffer and of the output
  to binary32, \<open>\<bar>mx - x\<bar> \<le> (\<bar>x\<bar> + 4\<bar>w\<bar>) / 2\<^sup>2\<^sup>2 + 2\<^sup>-\<^sup>1\<^sup>4\<^sup>8\<close>, and the same for \<open>my\<close> and
  \<open>y\<close>. A coordinate with \<open>\<bar>x\<bar> + 4\<bar>w\<bar> \<le> 40\<close> is recovered to within \<open>10\<^sup>-\<^sup>5\<close>. The points need
  not be distinct. The bounds on the magnitudes keep every vertex coordinate in the
  range of binary32. The error bound counts four roundings to binary32 where the
  computation makes three, which leaves room for the rounding of the binary64
  arithmetic.
\<close>

theorem C1_round_trip_rounded:
  assumes "even (length ps)" and "\<forall>x \<in> set ps. \<bar>x\<bar> \<le> 2 ^ 100" and "\<bar>w\<bar> \<le> 2 ^ 100"
  shows "length (reconstructLine
                   (fst (triangulateLine (map Num ps) (Num w) ([], []) False False)) 0)
           = 3 * (length ps div 2)
       \<and> (\<forall>k < length ps div 2. \<exists>mx my.
            reconstructLine
                (fst (triangulateLine (map Num ps) (Num w) ([], []) False False)) 0 ! (3 * k)
              = Num mx
          \<and> reconstructLine
                (fst (triangulateLine (map Num ps) (Num w) ([], []) False False)) 0 ! (3 * k + 1)
              = Num my
          \<and> reconstructLine
                (fst (triangulateLine (map Num ps) (Num w) ([], []) False False)) 0 ! (3 * k + 2)
              = Num 0
          \<and> \<bar>mx - ps ! (2 * k)\<bar> \<le> (\<bar>ps ! (2 * k)\<bar> + 4 * \<bar>w\<bar>) / 2 ^ 22 + 1 / 2 ^ 148
          \<and> \<bar>my - ps ! (2 * k + 1)\<bar>
              \<le> (\<bar>ps ! (2 * k + 1)\<bar> + 4 * \<bar>w\<bar>) / 2 ^ 22 + 1 / 2 ^ 148
          \<and> (\<bar>ps ! (2 * k)\<bar> + 4 * \<bar>w\<bar> \<le> 40 \<longrightarrow> \<bar>mx - ps ! (2 * k)\<bar> \<le> 1 / 100000)
          \<and> (\<bar>ps ! (2 * k + 1)\<bar> + 4 * \<bar>w\<bar> \<le> 40
                \<longrightarrow> \<bar>my - ps ! (2 * k + 1)\<bar> \<le> 1 / 100000))"
proof (intro conjI allI impI)
  define V where "V = fst (triangulateLine (map Num ps) (Num w) ([], []) False False)"
  have len: "length ps = 2 * (length ps div 2)"
    using assms(1) by simp
  have "length V = 6 * (length ps div 2)"
    unfolding V_def using assms(1) triangulateLine_vertices_length [of "map Num ps" "Num w"]
    by simp
  then show "length (reconstructLine
                   (fst (triangulateLine (map Num ps) (Num w) ([], []) False False)) 0)
           = 3 * (length ps div 2)"
    unfolding V_def [symmetric] by (simp add: reconstructLine_length)
  fix k
  assume k: "k < length ps div 2"
  obtain mx my where m: "reconstructLine V 0 ! (3 * k) = Num mx"
    "reconstructLine V 0 ! (3 * k + 1) = Num my"
    "reconstructLine V 0 ! (3 * k + 2) = Num 0"
    "\<bar>mx - ps ! (2 * k)\<bar> \<le> (\<bar>ps ! (2 * k)\<bar> + 4 * \<bar>w\<bar>) / 2 ^ 22 + 1 / 2 ^ 148"
    "\<bar>my - ps ! (2 * k + 1)\<bar> \<le> (\<bar>ps ! (2 * k + 1)\<bar> + 4 * \<bar>w\<bar>) / 2 ^ 22 + 1 / 2 ^ 148"
    using round_trip_point [OF len k V_def] by blast
  have "\<bar>ps ! (2 * k)\<bar> + 4 * \<bar>w\<bar> \<le> 40 \<longrightarrow> \<bar>mx - ps ! (2 * k)\<bar> \<le> 1 / 100000"
    using tolerance_met [OF m(4)] by blast
  moreover have "\<bar>ps ! (2 * k + 1)\<bar> + 4 * \<bar>w\<bar> \<le> 40 \<longrightarrow> \<bar>my - ps ! (2 * k + 1)\<bar> \<le> 1 / 100000"
    using tolerance_met [OF m(5)] by blast
  ultimately show "\<exists>mx my.
            reconstructLine
                (fst (triangulateLine (map Num ps) (Num w) ([], []) False False)) 0 ! (3 * k)
              = Num mx
          \<and> reconstructLine
                (fst (triangulateLine (map Num ps) (Num w) ([], []) False False)) 0 ! (3 * k + 1)
              = Num my
          \<and> reconstructLine
                (fst (triangulateLine (map Num ps) (Num w) ([], []) False False)) 0 ! (3 * k + 2)
              = Num 0
          \<and> \<bar>mx - ps ! (2 * k)\<bar> \<le> (\<bar>ps ! (2 * k)\<bar> + 4 * \<bar>w\<bar>) / 2 ^ 22 + 1 / 2 ^ 148
          \<and> \<bar>my - ps ! (2 * k + 1)\<bar>
              \<le> (\<bar>ps ! (2 * k + 1)\<bar> + 4 * \<bar>w\<bar>) / 2 ^ 22 + 1 / 2 ^ 148
          \<and> (\<bar>ps ! (2 * k)\<bar> + 4 * \<bar>w\<bar> \<le> 40 \<longrightarrow> \<bar>mx - ps ! (2 * k)\<bar> \<le> 1 / 100000)
          \<and> (\<bar>ps ! (2 * k + 1)\<bar> + 4 * \<bar>w\<bar> \<le> 40
                \<longrightarrow> \<bar>my - ps ! (2 * k + 1)\<bar> \<le> 1 / 100000)"
    unfolding V_def [symmetric] using m by blast
qed

theorem C1_round_trip_rounded_witness:
  "\<exists>mx my.
     reconstructLine
       (fst (triangulateLine (map Num [0, 0, 2, 0, 2, 2]) (Num 1) ([], []) False False)) 0 ! 3
       = Num mx
   \<and> reconstructLine
       (fst (triangulateLine (map Num [0, 0, 2, 0, 2, 2]) (Num 1) ([], []) False False)) 0 ! 4
       = Num my
   \<and> reconstructLine
       (fst (triangulateLine (map Num [0, 0, 2, 0, 2, 2]) (Num 1) ([], []) False False)) 0 ! 5
       = Num 0
   \<and> \<bar>mx - 2\<bar> \<le> 1 / 100000 \<and> \<bar>my - 0\<bar> \<le> 1 / 100000"
proof -
  have h: "even (length [0, 0, 2, 0, 2, 2::real])"
    "\<forall>x \<in> set [0, 0, 2, 0, 2, 2::real]. \<bar>x\<bar> \<le> 2 ^ 100" "\<bar>1::real\<bar> \<le> 2 ^ 100"
    by simp_all
  have k: "(1::nat) < length [0, 0, 2, 0, 2, 2::real] div 2"
    by simp
  from C1_round_trip_rounded [OF h] k obtain mx my where
    "reconstructLine
       (fst (triangulateLine (map Num [0, 0, 2, 0, 2, 2]) (Num 1) ([], []) False False)) 0 ! (3 * 1)
       = Num mx"
    "reconstructLine
       (fst (triangulateLine (map Num [0, 0, 2, 0, 2, 2]) (Num 1) ([], []) False False)) 0 ! (3 * 1 + 1)
       = Num my"
    "reconstructLine
       (fst (triangulateLine (map Num [0, 0, 2, 0, 2, 2]) (Num 1) ([], []) False False)) 0 ! (3 * 1 + 2)
       = Num 0"
    "\<bar>[0, 0, 2, 0, 2, 2] ! (2 * 1)\<bar> + 4 * \<bar>1::real\<bar> \<le> 40
       \<longrightarrow> \<bar>mx - [0, 0, 2, 0, 2, 2] ! (2 * 1)\<bar> \<le> 1 / 100000"
    "\<bar>[0, 0, 2, 0, 2, 2] ! (2 * 1 + 1)\<bar> + 4 * \<bar>1::real\<bar> \<le> 40
       \<longrightarrow> \<bar>my - [0, 0, 2, 0, 2, 2] ! (2 * 1 + 1)\<bar> \<le> 1 / 100000"
    by blast
  then show ?thesis
    by (intro exI [of _ mx] exI [of _ my]) simp
qed

section \<open>The reconstructed width\<close>

lemma segment_dir_unit:
  assumes len: "2 * k + 3 < length ps"
    and ne: "(ps ! (2 * k + 2), ps ! (2 * k + 3)) \<noteq> (ps ! (2 * k), ps ! (2 * k + 1))"
  shows "\<exists>a1 a2. segment_dir (map Num ps) k = Vector3 (Num a1) (Num a2) (Num 0)
           \<and> a1 * a1 + a2 * a2 = 1"
proof -
  define dx where "dx = ps ! (2 * k + 2) - ps ! (2 * k)"
  define dy where "dy = ps ! (2 * k + 3) - ps ! (2 * k + 1)"
  define l where "l = sqrt (dx * dx + dy * dy)"
  from ne have nz: "dx \<noteq> 0 \<or> dy \<noteq> 0"
    by (auto simp: dx_def dy_def)
  then have pos: "0 < dx * dx + dy * dy"
    by (metis add_pos_nonneg add_nonneg_pos zero_le_square not_real_square_gt_zero)
  have l: "l \<noteq> 0" "l * l = dx * dx + dy * dy"
    using nz pos by (auto simp: l_def)
  have p0: "point (map Num ps) k = Vector3 (Num (ps ! (2 * k))) (Num (ps ! (2 * k + 1))) (Num 0)"
    using len by (intro point_map_Num) simp
  have p1: "point (map Num ps) (k + 1) =
      Vector3 (Num (ps ! (2 * k + 2))) (Num (ps ! (2 * k + 3))) (Num 0)"
    using len point_map_Num [of "k + 1" ps] by (simp add: numeral_3_eq_3)
  have d: "v3_sub (point (map Num ps) (k + 1)) (point (map Num ps) k)
      = Vector3 (Num dx) (Num dy) (Num 0)"
    unfolding p0 p1 by (simp add: v3_sub_def dx_def dy_def)
  have "v3_length (Vector3 (Num dx) (Num dy) (Num 0)) = Num l"
    using pos by (simp add: v3_length_def l_def)
  then have n: "v3_normalize (Vector3 (Num dx) (Num dy) (Num 0)) =
      Vector3 (Num (dx * (1 / l))) (Num (dy * (1 / l))) (Num 0)"
    using l(1) by (simp add: v3_normalize_def v3_multiplyScalar_def)
  have s: "segment_dir (map Num ps) k = Vector3 (Num (dy * (1 / l))) (Num (- (dx * (1 / l)))) (Num 0)"
    unfolding segment_dir_def d n by (rule cross_UNIT_Z)
  have "dy * (1 / l) * (dy * (1 / l)) + - (dx * (1 / l)) * - (dx * (1 / l))
      = (dx * dx + dy * dy) / (l * l)"
    by (simp add: add_divide_distrib)
  also have "\<dots> = 1"
    using l nz by simp
  finally show ?thesis
    using s by blast
qed

lemma segment_dir_unit_at:
  assumes "i0 = 2 * k" "i1 = 2 * k + 1" "i2 = 2 * k + 2" "i3 = 2 * k + 3"
    and "i3 < length ps" and "(ps ! i2, ps ! i3) \<noteq> (ps ! i0, ps ! i1)"
  shows "\<exists>a1 a2. segment_dir (map Num ps) k = Vector3 (Num a1) (Num a2) (Num 0)
           \<and> a1 * a1 + a2 * a2 = 1"
  using assms segment_dir_unit [of k ps] by simp

lemma tri_bend:
  "fst (triangulateLine [Num 0, Num 0, Num 2, Num 0, Num 2, Num 2] (Num 1) ([], []) False False)
     = [Num 0, Num 1, Num 0, Num 0, Num (- 1), Num 0,
        Num 1, Num 1, Num 0, Num 3, Num (- 1), Num 0,
        Num 1, Num 2, Num 0, Num 3, Num 2, Num 0]"
  by (simp add: triangulateLine_def loop_unfold rd_simps v3_defs Let_def sqrt_4)

text \<open>
  Claim C3, as stated, fails: for the polyline \<open>(0,0), (2,0), (2,2)\<close> of width 1 the
  value at \<open>startIndex = 1\<close> is \<open>\<surd>5 / 2\<close>, and the value at \<open>startIndex = 3\<close>, the pair of
  the point at the bend, is \<open>\<surd>2\<close>.
\<close>

theorem C3_counterexample:
  "reconstructLineWidth
     (fst (triangulateLine [Num 0, Num 0, Num 2, Num 0, Num 2, Num 2] (Num 1) ([], []) False False)) 1
     \<noteq> Num 1
   \<and> reconstructLineWidth
     (fst (triangulateLine [Num 0, Num 0, Num 2, Num 0, Num 2, Num 2] (Num 1) ([], []) False False)) 3
     \<noteq> Num 1"
proof -
  have a: "sqrt 5 \<noteq> 2"
  proof
    assume "sqrt 5 = 2"
    then have "(sqrt 5)\<^sup>2 = 2\<^sup>2" by (rule arg_cong)
    then show False by simp
  qed
  have b: "sqrt 2 \<noteq> 1"
  proof
    assume "sqrt 2 = 1"
    then have "(sqrt 2)\<^sup>2 = 1\<^sup>2" by (rule arg_cong)
    then show False by simp
  qed
  show ?thesis
    unfolding tri_bend using a b
    by (simp add: reconstructLineWidth_def rd32_def rd_simps binary32_simps Let_def sqrt_8)
qed

lemma half_norm: "sqrt (xd * xd + yd * yd) * (1 / 2) = sqrt ((xd / 2)\<^sup>2 + (yd / 2)\<^sup>2)"
proof -
  have "(xd / 2)\<^sup>2 + (yd / 2)\<^sup>2 = (xd * xd + yd * yd) / 4"
    by (simp add: power2_eq_square add_divide_distrib)
  then have "sqrt ((xd / 2)\<^sup>2 + (yd / 2)\<^sup>2) = sqrt (xd * xd + yd * yd) / sqrt 4"
    by (simp only: real_sqrt_divide)
  then show ?thesis
    by (simp only: sqrt_4)
qed

lemma scaled_norm: "\<bar>w\<bar> * sqrt (a1 * a1 + a2 * a2) = sqrt ((a1 * w)\<^sup>2 + (a2 * w)\<^sup>2)"
proof -
  have "(a1 * w)\<^sup>2 + (a2 * w)\<^sup>2 = w\<^sup>2 * (a1 * a1 + a2 * a2)"
    by (simp add: power2_eq_square algebra_simps)
  then show ?thesis
    by (simp add: real_sqrt_mult)
qed

lemma binary32_width_error:
  assumes t: "\<bar>a1\<bar> \<le> 4" "\<bar>a2\<bar> \<le> 4"
  shows "\<bar>sqrt ((binary32 (x + a1 * w) - binary32 (x - a1 * w))
                 * (binary32 (x + a1 * w) - binary32 (x - a1 * w))
               + (binary32 (y + a2 * w) - binary32 (y - a2 * w))
                 * (binary32 (y + a2 * w) - binary32 (y - a2 * w))) * (1 / 2)
          - \<bar>w\<bar> * sqrt (a1 * a1 + a2 * a2)\<bar>
         \<le> (\<bar>x\<bar> + \<bar>y\<bar> + 8 * \<bar>w\<bar>) / 2 ^ 23 + 1 / 2 ^ 148"
proof -
  define xd where "xd = binary32 (x + a1 * w) - binary32 (x - a1 * w)"
  define yd where "yd = binary32 (y + a2 * w) - binary32 (y - a2 * w)"
  have t1: "\<bar>a1 * w\<bar> \<le> 4 * \<bar>w\<bar>" and t2: "\<bar>a2 * w\<bar> \<le> 4 * \<bar>w\<bar>"
    unfolding abs_mult using t by (simp_all add: mult_right_mono)
  have ex: "\<bar>xd / 2 - a1 * w\<bar> \<le> (1 / 2 ^ 24) * (\<bar>x\<bar> + \<bar>a1 * w\<bar>) + 1 / 2 ^ 150"
    unfolding xd_def by (rule rounded_half_difference_error [OF binary32_error']) simp
  have ey: "\<bar>yd / 2 - a2 * w\<bar> \<le> (1 / 2 ^ 24) * (\<bar>y\<bar> + \<bar>a2 * w\<bar>) + 1 / 2 ^ 150"
    unfolding yd_def by (rule rounded_half_difference_error [OF binary32_error']) simp
  have "\<bar>sqrt (xd * xd + yd * yd) * (1 / 2) - \<bar>w\<bar> * sqrt (a1 * a1 + a2 * a2)\<bar>
      \<le> \<bar>xd / 2 - a1 * w\<bar> + \<bar>yd / 2 - a2 * w\<bar>"
    unfolding half_norm scaled_norm by (rule norm2_difference)
  also have "\<dots> \<le> (1 / 2 ^ 24) * (\<bar>x\<bar> + \<bar>a1 * w\<bar>) + 1 / 2 ^ 150
                  + ((1 / 2 ^ 24) * (\<bar>y\<bar> + \<bar>a2 * w\<bar>) + 1 / 2 ^ 150)"
    using ex ey by (rule add_mono)
  also have "\<dots> = (\<bar>x\<bar> + \<bar>y\<bar> + (\<bar>a1 * w\<bar> + \<bar>a2 * w\<bar>)) / 2 ^ 24 + 1 / 2 ^ 149"
    by (simp add: add_divide_distrib)
  also have "\<dots> \<le> (\<bar>x\<bar> + \<bar>y\<bar> + 8 * \<bar>w\<bar>) / 2 ^ 24 + 1 / 2 ^ 149"
    using t1 t2 by (simp add: divide_right_mono)
  also have "\<dots> \<le> (\<bar>x\<bar> + \<bar>y\<bar> + 8 * \<bar>w\<bar>) / 2 ^ 23 + 1 / 2 ^ 148"
  proof -
    have "0 \<le> \<bar>x\<bar> + \<bar>y\<bar> + 8 * \<bar>w\<bar>" by simp
    then have "(\<bar>x\<bar> + \<bar>y\<bar> + 8 * \<bar>w\<bar>) / 2 ^ 24 \<le> (\<bar>x\<bar> + \<bar>y\<bar> + 8 * \<bar>w\<bar>) / 2 ^ 23"
      by (intro divide_left_mono) simp_all
    moreover have "(1::real) / 2 ^ 149 \<le> 1 / 2 ^ 148"
      by simp
    ultimately show ?thesis
      by (rule add_mono)
  qed
  finally show ?thesis
    unfolding xd_def yd_def .
qed

lemma reconstructLineWidth_pair:
  assumes len: "6 * k + 5 < length V"
    and v: "V ! (6 * k) = Num x0" "V ! (6 * k + 1) = Num y0" "V ! (6 * k + 2) = Num 0"
      "V ! (6 * k + 3) = Num x1" "V ! (6 * k + 4) = Num y1" "V ! (6 * k + 5) = Num 0"
  shows "reconstructLineWidth V (3 * k) =
     Num (sqrt ((binary32 x1 - binary32 x0) * (binary32 x1 - binary32 x0)
              + (binary32 y1 - binary32 y0) * (binary32 y1 - binary32 y0)) * (1 / 2))"
proof -
  have idx: "3 * k * 2 = 6 * k" "6 * k + 3 + 1 = 6 * k + 4" "6 * k + 3 + 2 = 6 * k + 5"
    by simp_all
  have l: "6 * k < length V" "6 * k + 1 < length V" "6 * k + 2 < length V"
    "6 * k + 3 < length V" "6 * k + 4 < length V"
    using len by simp_all
  have nn: "\<not> (binary32 x1 - binary32 x0) * (binary32 x1 - binary32 x0)
              + (binary32 y1 - binary32 y0) * (binary32 y1 - binary32 y0) < 0"
    by (simp add: not_less)
  show ?thesis
    unfolding reconstructLineWidth_def rd32_nat idx Let_def
    using len l v nn by (simp add: binary32_0)
qed

lemma v3_length_planar:
  "v3_length (Vector3 (Num a1) (Num a2) (Num 0)) = Num (sqrt (a1 * a1 + a2 * a2))"
proof -
  have "\<not> a1 * a1 + a2 * a2 < 0"
    by (simp add: not_less)
  then show ?thesis
    by (simp add: v3_length_def)
qed

lemma end_direction_unit:
  assumes len: "length ps = 2 * n" and n: "2 \<le> n" and k: "k = 0 \<or> k + 1 = n"
    and nd: "\<And>i. 2 * i + 3 < length ps \<Longrightarrow>
               (ps ! (2 * i + 2), ps ! (2 * i + 3)) \<noteq> (ps ! (2 * i), ps ! (2 * i + 1))"
  shows "v3_length (averaged_dir (map Num ps) n k) = Num 1"
proof -
  define i where "i = (if k = 0 then 0 else k - 1)"
  have i: "2 * i + 3 < length ps"
    using len n k by (auto simp: i_def)
  have "averaged_dir (map Num ps) n k = segment_dir (map Num ps) i"
    using n k by (auto simp: averaged_dir_def prev_dir_def i_def)
  moreover obtain a1 a2 where "segment_dir (map Num ps) i = Vector3 (Num a1) (Num a2) (Num 0)"
    "a1 * a1 + a2 * a2 = 1"
    using segment_dir_unit [OF i nd [OF i]] by blast
  ultimately show ?thesis
    by (simp add: v3_length_unit)
qed

lemma width_at_pair:
  assumes len: "length ps = 2 * n" and k: "k < n"
    and V: "V = fst (triangulateLine (map Num ps) (Num w) ([], []) False False)"
  shows "\<exists>r L. reconstructLineWidth V (3 * k) = Num r
           \<and> v3_length (averaged_dir (map Num ps) n k) = Num L
           \<and> \<bar>r - \<bar>w\<bar> * L\<bar>
               \<le> (\<bar>ps ! (2 * k)\<bar> + \<bar>ps ! (2 * k + 1)\<bar> + 8 * \<bar>w\<bar>) / 2 ^ 23 + 1 / 2 ^ 148"
proof -
  obtain a1 a2 where av: "averaged_dir (map Num ps) n k = Vector3 (Num a1) (Num a2) (Num 0)"
    and a: "\<bar>a1\<bar> \<le> 4" "\<bar>a2\<bar> \<le> 4" and lenV: "length V = 6 * n"
    and v: "V ! (6 * k) = Num (ps ! (2 * k) - a1 * w)"
      "V ! (6 * k + 1) = Num (ps ! (2 * k + 1) - a2 * w)"
      "V ! (6 * k + 2) = Num 0"
      "V ! (6 * k + 3) = Num (ps ! (2 * k) + a1 * w)"
      "V ! (6 * k + 4) = Num (ps ! (2 * k + 1) + a2 * w)"
      "V ! (6 * k + 5) = Num 0"
    using triangulateLine_pair [OF len k V] by blast
  have in_range: "6 * k + 5 < length V"
    using k lenV by simp
  show ?thesis
    unfolding reconstructLineWidth_pair [OF in_range v] av v3_length_planar
    using binary32_width_error [OF a, of "ps ! (2 * k)" w "ps ! (2 * k + 1)"]
    by blast
qed

text \<open>
  Claim C3, amended. For every polyline of at least two points with real coordinates
  of magnitude at most \<open>2\<^sup>1\<^sup>0\<^sup>0\<close>, consecutive points differing by at least \<open>2\<^sup>-\<^sup>5\<^sup>0\<^sup>0\<close> in
  one coordinate, extruded with a real width \<open>w\<close> of magnitude at most \<open>2\<^sup>1\<^sup>0\<^sup>0\<close> and no
  caps into empty buffers: \<open>reconstructLineWidth\<close> at \<open>startIndex = 3k\<close>, the index
  whose double is the offset of the vertex pair of point \<open>k = (x, y)\<close>, returns \<open>\<bar>w\<bar>\<close>
  times the length \<open>L\<close> of the averaged offset direction of point \<open>k\<close>, up to the
  rounding of the vertex buffer to binary32: the value \<open>r\<close> returned has
  \<open>\<bar>r - \<bar>w\<bar> L\<bar> \<le> (\<bar>x\<bar> + \<bar>y\<bar> + 8\<bar>w\<bar>) / 2\<^sup>2\<^sup>3 + 2\<^sup>-\<^sup>1\<^sup>4\<^sup>8\<close>. At the first and at the last point
  \<open>L = 1\<close>, so the value is \<open>\<bar>w\<bar>\<close> up to that error; at a bend \<open>L\<close> is the length of the
  miter. The bounds on the magnitudes keep every vertex coordinate in the range of
  binary32 and the square of every segment length in the range of binary64. The error
  bound is twice that of the two roundings to binary32 of each coordinate, which
  leaves room for the rounding of the binary64 arithmetic.
\<close>

theorem C3_width_rounded:
  assumes "even (length ps)" and "4 \<le> length ps"
    and "\<forall>x \<in> set ps. \<bar>x\<bar> \<le> 2 ^ 100" and "\<bar>w\<bar> \<le> 2 ^ 100"
    and "\<forall>i. 2 * i + 3 < length ps \<longrightarrow>
           1 / 2 ^ 500 \<le> max \<bar>ps ! (2 * i + 2) - ps ! (2 * i)\<bar>
                              \<bar>ps ! (2 * i + 3) - ps ! (2 * i + 1)\<bar>"
  shows "\<forall>k < length ps div 2. \<exists>r L.
           reconstructLineWidth
             (fst (triangulateLine (map Num ps) (Num w) ([], []) False False)) (3 * k) = Num r
         \<and> v3_length (averaged_dir (map Num ps) (length ps div 2) k) = Num L
         \<and> \<bar>r - \<bar>w\<bar> * L\<bar>
             \<le> (\<bar>ps ! (2 * k)\<bar> + \<bar>ps ! (2 * k + 1)\<bar> + 8 * \<bar>w\<bar>) / 2 ^ 23 + 1 / 2 ^ 148
         \<and> (k = 0 \<or> k + 1 = length ps div 2 \<longrightarrow> L = 1)"
proof (intro allI impI)
  fix k
  assume k: "k < length ps div 2"
  define V where "V = fst (triangulateLine (map Num ps) (Num w) ([], []) False False)"
  define n where "n = length ps div 2"
  have len: "length ps = 2 * n" and n: "2 \<le> n"
    using assms(1,2) by (auto simp: n_def)
  have nd: "(ps ! (2 * i + 2), ps ! (2 * i + 3)) \<noteq> (ps ! (2 * i), ps ! (2 * i + 1))"
    if "2 * i + 3 < length ps" for i
  proof
    assume "(ps ! (2 * i + 2), ps ! (2 * i + 3)) = (ps ! (2 * i), ps ! (2 * i + 1))"
    then have "max \<bar>ps ! (2 * i + 2) - ps ! (2 * i)\<bar> \<bar>ps ! (2 * i + 3) - ps ! (2 * i + 1)\<bar> = 0"
      by simp
    moreover have "(0::real) < 1 / 2 ^ 500"
      by simp
    ultimately show False
      using assms(5) that by (metis not_less)
  qed
  obtain r L where rl: "reconstructLineWidth V (3 * k) = Num r"
    "v3_length (averaged_dir (map Num ps) n k) = Num L"
    "\<bar>r - \<bar>w\<bar> * L\<bar> \<le> (\<bar>ps ! (2 * k)\<bar> + \<bar>ps ! (2 * k + 1)\<bar> + 8 * \<bar>w\<bar>) / 2 ^ 23 + 1 / 2 ^ 148"
    using width_at_pair [OF len k [folded n_def] V_def] by blast
  have "L = 1" if "k = 0 \<or> k + 1 = n"
    using end_direction_unit [OF len n that nd] rl(2) by simp
  then show "\<exists>r L.
           reconstructLineWidth
             (fst (triangulateLine (map Num ps) (Num w) ([], []) False False)) (3 * k) = Num r
         \<and> v3_length (averaged_dir (map Num ps) (length ps div 2) k) = Num L
         \<and> \<bar>r - \<bar>w\<bar> * L\<bar>
             \<le> (\<bar>ps ! (2 * k)\<bar> + \<bar>ps ! (2 * k + 1)\<bar> + 8 * \<bar>w\<bar>) / 2 ^ 23 + 1 / 2 ^ 148
         \<and> (k = 0 \<or> k + 1 = length ps div 2 \<longrightarrow> L = 1)"
    unfolding V_def [symmetric] n_def [symmetric] using rl by blast
qed

theorem C3_width_rounded_witness:
  "\<exists>r. reconstructLineWidth
          (fst (triangulateLine (map Num [0, 0, 2, 0, 2, 2]) (Num 1) ([], []) False False)) 0
        = Num r \<and> \<bar>r - 1\<bar> \<le> 1 / 1000000"
proof -
  have nd: "\<forall>i. 2 * i + 3 < length [0, 0, 2, 0, 2, 2::real] \<longrightarrow>
           1 / 2 ^ 500 \<le> max \<bar>[0, 0, 2, 0, 2, 2::real] ! (2 * i + 2) - [0, 0, 2, 0, 2, 2] ! (2 * i)\<bar>
                              \<bar>[0, 0, 2, 0, 2, 2::real] ! (2 * i + 3) - [0, 0, 2, 0, 2, 2] ! (2 * i + 1)\<bar>"
  proof (intro allI impI)
    fix i :: nat
    assume "2 * i + 3 < length [0, 0, 2, 0, 2, 2::real]"
    then have "i = 0 \<or> i = 1"
      by auto
    moreover have "(1::real) / 2 ^ 500 \<le> 2"
      by (rule order_trans [of _ 1]) simp_all
    ultimately show "1 / 2 ^ 500 \<le> max \<bar>[0, 0, 2, 0, 2, 2::real] ! (2 * i + 2) - [0, 0, 2, 0, 2, 2] ! (2 * i)\<bar>
                              \<bar>[0, 0, 2, 0, 2, 2::real] ! (2 * i + 3) - [0, 0, 2, 0, 2, 2] ! (2 * i + 1)\<bar>"
      by (auto simp: numeral_3_eq_3)
  qed
  have h: "even (length [0, 0, 2, 0, 2, 2::real])" "4 \<le> length [0, 0, 2, 0, 2, 2::real]"
    "\<forall>x \<in> set [0, 0, 2, 0, 2, 2::real]. \<bar>x\<bar> \<le> 2 ^ 100" "\<bar>1::real\<bar> \<le> 2 ^ 100"
    by simp_all
  have k: "(0::nat) < length [0, 0, 2, 0, 2, 2::real] div 2"
    by simp
  from C3_width_rounded [OF h nd] k obtain r L where
    "reconstructLineWidth
       (fst (triangulateLine (map Num [0, 0, 2, 0, 2, 2]) (Num 1) ([], []) False False)) (3 * 0)
      = Num r"
    "\<bar>r - \<bar>1\<bar> * L\<bar>
       \<le> (\<bar>[0, 0, 2, 0, 2, 2] ! (2 * 0)\<bar> + \<bar>[0, 0, 2, 0, 2, 2] ! (2 * 0 + 1)\<bar> + 8 * \<bar>1::real\<bar>) / 2 ^ 23
          + 1 / 2 ^ 148"
    "(0::nat) = 0 \<or> (0::nat) + 1 = length [0, 0, 2, 0, 2, 2::real] div 2 \<longrightarrow> L = 1"
    by blast
  then show ?thesis
    by (intro exI [of _ r]) simp
qed

end
